theory Spec2Isabelle
  imports Main
begin

section \<open>Bytes and code points\<close>

text \<open>
  Cells are Go byte slices; a byte is modelled as a \<^typ>\<open>char\<close> (eight bits), so that a
  byte slice is a \<^typ>\<open>string\<close> and ASCII text can be written as a literal.  A rune
  (Go \<open>int32\<close>) and a Go \<open>int\<close> are modelled as \<^typ>\<open>int\<close>: the functions below only
  compare and add widths, far away from the machine bounds.
\<close>

type_synonym byte = char
type_synonym rune = int

definition bval :: "byte \<Rightarrow> nat" where
  "bval c = of_char c"

section \<open>width.go: the width classifier\<close>

record unicodeRange =
  range_start :: rune
  range_end :: rune
  range_width :: int

definition mkRange :: "rune \<Rightarrow> rune \<Rightarrow> int \<Rightarrow> unicodeRange" where
  "mkRange s e w = \<lparr>range_start = s, range_end = e, range_width = w\<rparr>"

definition wideRanges :: "unicodeRange list" where
  "wideRanges =
    [mkRange 0x4E00 0x9FFF 2, mkRange 0x3400 0x4DBF 2, mkRange 0x20000 0x2A6DF 2,
     mkRange 0x2A700 0x2B73F 2, mkRange 0x2B740 0x2B81F 2, mkRange 0x2B820 0x2CEAF 2,
     mkRange 0x2CEB0 0x2EBEF 2,
     mkRange 0xAC00 0xD7AF 2, mkRange 0x1100 0x115F 2, mkRange 0x1160 0x11FF 2,
     mkRange 0xA960 0xA97F 2,
     mkRange 0x3040 0x309F 2, mkRange 0x30A0 0x30FF 2, mkRange 0x31F0 0x31FF 2,
     mkRange 0x3000 0x303F 2, mkRange 0x2E80 0x2EFF 2, mkRange 0x2F00 0x2FDF 2,
     mkRange 0x2FF0 0x2FFF 2,
     mkRange 0xFF01 0xFF60 2, mkRange 0xFFE0 0xFFE6 2,
     mkRange 0x1F300 0x1F5FF 2, mkRange 0x1F600 0x1F64F 2, mkRange 0x1F680 0x1F6FF 2,
     mkRange 0x1F700 0x1F77F 2, mkRange 0x1F780 0x1F7FF 2, mkRange 0x1F800 0x1F8FF 2,
     mkRange 0x1F900 0x1F9FF 2, mkRange 0x1FA00 0x1FA6F 2, mkRange 0x1FA70 0x1FAFF 2,
     mkRange 0x2460 0x24FF 2, mkRange 0x25A0 0x25FF 2, mkRange 0x2600 0x26FF 2,
     mkRange 0x2700 0x27BF 2]"

definition zeroWidthRanges :: "unicodeRange list" where
  "zeroWidthRanges =
    [mkRange 0x0300 0x036F 0, mkRange 0x1AB0 0x1AFF 0, mkRange 0x1DC0 0x1DFF 0,
     mkRange 0x20D0 0x20FF 0, mkRange 0xFE20 0xFE2F 0, mkRange 0x200B 0x200F 0,
     mkRange 0x2028 0x2029 0, mkRange 0x202A 0x202E 0, mkRange 0x2060 0x2064 0]"

text \<open>The test \<open>r >= rang.start && r <= rang.end\<close> of both loops of \<open>RuneWidth\<close>.\<close>

definition inRange :: "rune \<Rightarrow> unicodeRange \<Rightarrow> bool" where
  "inRange r rang \<longleftrightarrow> range_start rang \<le> r \<and> r \<le> range_end rang"

text \<open>
  \<open>for _, rang := range table { if r >= rang.start && r <= rang.end { return ... } }\<close>:
  the first entry of the table that holds \<open>r\<close>, if there is one.
\<close>

fun firstRange :: "unicodeRange list \<Rightarrow> rune \<Rightarrow> unicodeRange option" where
  "firstRange [] r = None"
| "firstRange (rang # rest) r = (if inRange r rang then Some rang else firstRange rest r)"

definition RuneWidth :: "rune \<Rightarrow> int" where
  "RuneWidth r =
    (if r < 0x80 then (if r \<ge> 0x20 then 1 else 0)
     else (case firstRange zeroWidthRanges r of
             Some rang \<Rightarrow> 0
           | None \<Rightarrow> (case firstRange wideRanges r of
                        Some rang \<Rightarrow> range_width rang
                      | None \<Rightarrow> 1)))"

text \<open>Properties of the two tables, as executable checks.\<close>

definition overlap :: "unicodeRange \<Rightarrow> unicodeRange \<Rightarrow> bool" where
  "overlap a b \<longleftrightarrow> range_start a \<le> range_end b \<and> range_start b \<le> range_end a"

fun nonOverlapping :: "unicodeRange list \<Rightarrow> bool" where
  "nonOverlapping [] = True"
| "nonOverlapping (a # rest) = (list_all (\<lambda>b. \<not> overlap a b) rest \<and> nonOverlapping rest)"

definition sortedByStart :: "unicodeRange list \<Rightarrow> bool" where
  "sortedByStart rs = sorted (map range_start rs)"

text \<open>The entries of both tables that hold a given code point.\<close>

definition matchingEntries :: "rune \<Rightarrow> unicodeRange list" where
  "matchingEntries r = filter (inRange r) (zeroWidthRanges @ wideRanges)"

section \<open>unicode/utf8 of the Go standard library\<close>

text \<open>
  \<open>utf8.DecodeRune\<close> returns the first code point of a buffer and its length in bytes:
  \<open>(RuneError, 0)\<close> for the empty buffer and \<open>(RuneError, 1)\<close> for an invalid
  encoding.  The library's lookup tables \<open>first\<close> and \<open>acceptRanges\<close> are written out
  as comparisons: \<open>seqLen\<close> is the length announced by the lead byte, \<open>acceptLo\<close> and
  \<open>acceptHi\<close> bound the second byte (they exclude overlong forms, surrogates and code
  points above \<open>0x10FFFF\<close>).  Masks and shifts of disjoint bit fields are written as
  \<open>mod\<close>, multiplication and addition.
\<close>

definition RuneError :: rune where
  "RuneError = 0xFFFD"

definition seqLen :: "nat \<Rightarrow> nat" where
  "seqLen v0 = (if v0 < 0xE0 then 2 else if v0 < 0xF0 then 3 else 4)"

definition acceptLo :: "nat \<Rightarrow> nat" where
  "acceptLo v0 = (if v0 = 0xE0 then 0xA0 else if v0 = 0xF0 then 0x90 else 0x80)"

definition acceptHi :: "nat \<Rightarrow> nat" where
  "acceptHi v0 = (if v0 = 0xED then 0x9F else if v0 = 0xF4 then 0x8F else 0xBF)"

definition decodeTail :: "nat \<Rightarrow> nat \<Rightarrow> byte list \<Rightarrow> rune \<times> nat" where
  "decodeTail v0 sz rest =
    (let b1 = bval (rest ! 0) in
     if b1 < acceptLo v0 \<or> acceptHi v0 < b1 then (RuneError, 1)
     else if sz \<le> 2 then (int ((v0 mod 32) * 64 + b1 mod 64), 2)
     else
       let b2 = bval (rest ! 1) in
       if b2 < 0x80 \<or> 0xBF < b2 then (RuneError, 1)
       else if sz \<le> 3 then (int ((v0 mod 16) * 4096 + (b1 mod 64) * 64 + b2 mod 64), 3)
       else
         let b3 = bval (rest ! 2) in
         if b3 < 0x80 \<or> 0xBF < b3 then (RuneError, 1)
         else (int ((v0 mod 8) * 262144 + (b1 mod 64) * 4096 + (b2 mod 64) * 64
                     + b3 mod 64), 4))"

fun DecodeRune :: "byte list \<Rightarrow> rune \<times> nat" where
  "DecodeRune [] = (RuneError, 0)"
| "DecodeRune (p0 # rest) =
    (let v0 = bval p0 in
     if v0 < 0x80 then (int v0, 1)
     else if v0 < 0xC2 \<or> 0xF5 \<le> v0 then (RuneError, 1)
     else if length (p0 # rest) < seqLen v0 then (RuneError, 1)
     else decodeTail v0 (seqLen v0) rest)"

text \<open>\<open>byte(r)\<close>: the low eight bits of an integer.\<close>

definition byteOf :: "int \<Rightarrow> byte" where
  "byteOf i = char_of i"

text \<open>
  \<open>utf8.EncodeRune\<close> (and \<open>utf8.AppendRune\<close>): negative values, surrogates and values
  above \<open>0x10FFFF\<close> are encoded as \<open>RuneError\<close>.
\<close>

definition EncodeRune :: "rune \<Rightarrow> byte list" where
  "EncodeRune r =
    (if 0 \<le> r \<and> r \<le> 0x7F then [byteOf r]
     else if 0 \<le> r \<and> r \<le> 0x7FF then [byteOf (0xC0 + r div 64), byteOf (0x80 + r mod 64)]
     else if r < 0 \<or> 0x10FFFF < r \<or> (0xD800 \<le> r \<and> r \<le> 0xDFFF)
       then [byteOf 0xEF, byteOf 0xBF, byteOf 0xBD]
     else if r \<le> 0xFFFF
       then [byteOf (0xE0 + r div 4096), byteOf (0x80 + (r div 64) mod 64),
             byteOf (0x80 + r mod 64)]
     else [byteOf (0xF0 + r div 262144), byteOf (0x80 + (r div 4096) mod 64),
           byteOf (0x80 + (r div 64) mod 64), byteOf (0x80 + r mod 64)])"

section \<open>width.go: widths of byte slices, truncation\<close>

type_synonym WidthFunc = "rune \<Rightarrow> int"

definition DefaultWidthFunc :: WidthFunc where
  "DefaultWidthFunc = RuneWidth"

text \<open>
  \<open>StringWidthBytesCustom\<close>: the loop \<open>for len(b) > 0\<close>.  The test is \<open>r == utf8.RuneError\<close>,
  so a well-formed encoding of \<open>U+FFFD\<close> also takes the first branch.
\<close>

function StringWidthBytesCustom :: "byte list \<Rightarrow> WidthFunc \<Rightarrow> int" where
  "StringWidthBytesCustom [] widthFunc = 0"
| "StringWidthBytesCustom (c # cs) widthFunc =
    (case DecodeRune (c # cs) of (r, n) \<Rightarrow>
       if r = RuneError then 1 + StringWidthBytesCustom cs widthFunc
       else widthFunc r + StringWidthBytesCustom (drop n (c # cs)) widthFunc)"
  by pat_completeness auto
termination
proof (relation "measure (\<lambda>(b, f). length b)", goal_cases)
  case 1
  show ?case by simp
next
  case (2 c cs widthFunc r n)
  show ?case by simp
next
  case (3 c cs widthFunc r n)
  then have "n = snd (DecodeRune (c # cs))" by (metis snd_conv)
  then have "1 \<le> n"
    by (auto simp: Let_def decodeTail_def)
  then show ?case by simp
qed

text \<open>
  \<open>TruncateToWidthBytes\<close>.  \<open>truncLoop\<close> is its \<open>for len(b) > 0\<close> loop and returns the
  three variables the code reads after it: \<open>result\<close>, the rest of \<open>b\<close> and \<open>width\<close>.
  The widths come from \<open>RuneWidth\<close>.
\<close>

function truncLoop :: "byte list \<Rightarrow> int \<Rightarrow> int \<Rightarrow> byte list \<Rightarrow> byte list \<times> byte list \<times> int" where
  "truncLoop [] maxWidth width result = (result, [], width)"
| "truncLoop (c # cs) maxWidth width result =
    (case DecodeRune (c # cs) of (r, n) \<Rightarrow>
       let runeWidth = RuneWidth r in
       if width + runeWidth > maxWidth then (result, c # cs, width)
       else truncLoop (drop n (c # cs)) maxWidth (width + runeWidth) (result @ take n (c # cs)))"
  by pat_completeness auto
termination
proof (relation "measure (\<lambda>(b, m, w, res). length b)", goal_cases)
  case 1
  show ?case by simp
next
  case (2 c cs maxWidth width result r n runeWidth)
  then have "n = snd (DecodeRune (c # cs))" by (metis snd_conv)
  then have "1 \<le> n"
    by (auto simp: Let_def decodeTail_def)
  then show ?case by simp
qed

definition TruncateToWidthBytes :: "byte list \<Rightarrow> int \<Rightarrow> byte list" where
  "TruncateToWidthBytes b maxWidth =
    (if maxWidth \<le> 0 then []
     else (case truncLoop b maxWidth 0 [] of (result, b', width) \<Rightarrow>
             if length b' > 0 \<and> width \<le> maxWidth - 3 then result @ ''...'' else result))"

section \<open>ansi.go: escape sequences\<close>

text \<open>
  \<open>table.go\<close> calls \<open>MeasureWidthIgnoreANSIBytesCustom\<close>, \<open>HasANSIBytes\<close> and
  \<open>StripANSIBytes\<close>; the file that defines them (\<open>ansi.go\<close>) is not among the sources.
  The three functions and the scanner they share are modelled from the specification.
\<close>

text \<open>
  Modelled from the spec: the parameter and intermediate bytes (\<open>0x30\<close> to \<open>0x3F\<close> and
  \<open>0x20\<close> to \<open>0x2F\<close>) and the final bytes (\<open>0x40\<close> to \<open>0x7E\<close>) of a CSI sequence.
\<close>

definition isParamByte :: "byte \<Rightarrow> bool" where
  "isParamByte c \<longleftrightarrow> 0x20 \<le> bval c \<and> bval c \<le> 0x3F"

definition isFinalByte :: "byte \<Rightarrow> bool" where
  "isFinalByte c \<longleftrightarrow> 0x40 \<le> bval c \<and> bval c \<le> 0x7E"

text \<open>
  Modelled from the spec: the body of a CSI sequence, after \<open>ESC [\<close>.  It runs through
  parameter and intermediate bytes (\<open>0x20\<close> to \<open>0x3F\<close>) up to and including a final byte
  (\<open>0x40\<close> to \<open>0x7E\<close>); the result is the number of bytes of the body.  An unterminated
  body takes the rest of the buffer; a byte of neither kind means that no sequence is
  recognised (\<open>None\<close>).
\<close>

fun csiBody :: "byte list \<Rightarrow> nat option" where
  "csiBody [] = Some 0"
| "csiBody (c # cs) =
    (if isFinalByte c then Some 1
     else if isParamByte c then map_option Suc (csiBody cs)
     else None)"

text \<open>
  Modelled from the spec: the escape-sequence scanner.  \<open>escapeLen b\<close> is the length in
  bytes of the escape sequence that starts at the head of \<open>b\<close>, and \<open>0\<close> when none does
  (the byte \<open>ESC = 0x1B\<close> not followed by \<open>[\<close>, or anything else).
\<close>

fun escapeLen :: "byte list \<Rightarrow> nat" where
  "escapeLen (e # l # rest) =
    (if bval e = 0x1B \<and> bval l = 0x5B
     then (case csiBody rest of Some k \<Rightarrow> k + 2 | None \<Rightarrow> 0)
     else 0)"
| "escapeLen [e] = 0"
| "escapeLen [] = 0"

text \<open>
  Modelled from the spec: the width accumulator \<open>measure(buffer, width_fn)\<close>.  At each
  position an escape sequence is skipped with width 0; otherwise one code point is decoded
  and contributes \<open>width_fn\<close> of it, an invalid encoding unit counting 1 and advancing by
  one byte.
\<close>

function MeasureWidthIgnoreANSIBytesCustom :: "byte list \<Rightarrow> WidthFunc \<Rightarrow> int" where
  "MeasureWidthIgnoreANSIBytesCustom [] widthFunc = 0"
| "MeasureWidthIgnoreANSIBytesCustom (c # cs) widthFunc =
    (let k = escapeLen (c # cs) in
     if k > 0 then MeasureWidthIgnoreANSIBytesCustom (drop k (c # cs)) widthFunc
     else (case DecodeRune (c # cs) of (r, n) \<Rightarrow>
             if r = RuneError \<and> n = 1 then 1 + MeasureWidthIgnoreANSIBytesCustom cs widthFunc
             else widthFunc r + MeasureWidthIgnoreANSIBytesCustom (drop n (c # cs)) widthFunc))"
  by pat_completeness auto
termination
proof (relation "measure (\<lambda>(b, f). length b)", goal_cases)
  case 1
  show ?case by simp
next
  case (2 c cs widthFunc k)
  then show ?case by simp
next
  case (3 c cs widthFunc k r n)
  then show ?case by simp
next
  case (4 c cs widthFunc k r n)
  then have "n = snd (DecodeRune (c # cs))" by (metis snd_conv)
  then have "1 \<le> n"
    by (auto simp: Let_def decodeTail_def)
  then show ?case by simp
qed

text \<open>
  Modelled from the spec: whether the cell ``contains escape sequences'', that is whether
  the scanner recognises a sequence at some position.
\<close>

fun HasANSIBytes :: "byte list \<Rightarrow> bool" where
  "HasANSIBytes [] = False"
| "HasANSIBytes (c # cs) = (escapeLen (c # cs) > 0 \<or> HasANSIBytes cs)"

text \<open>
  Modelled from the spec: the ``sequence-stripped content'' of a cell: every escape
  sequence the scanner recognises is left out, every other byte is kept.
\<close>

function StripANSIBytes :: "byte list \<Rightarrow> byte list" where
  "StripANSIBytes [] = []"
| "StripANSIBytes (c # cs) =
    (let k = escapeLen (c # cs) in
     if k > 0 then StripANSIBytes (drop k (c # cs)) else c # StripANSIBytes cs)"
  by pat_completeness auto
termination
  by (relation "measure length") auto

section \<open>table\_styles.go: border lines\<close>

record Style =
  TopLeft :: rune
  TopRight :: rune
  BottomLeft :: rune
  BottomRight :: rune
  Horizontal :: rune
  Vertical :: rune
  Cross :: rune
  TopTee :: rune
  BottomTee :: rune
  LeftTee :: rune
  RightTee :: rune

definition StyleSingle :: Style where
  "StyleSingle = \<lparr>TopLeft = 0x250C, TopRight = 0x2510, BottomLeft = 0x2514,
     BottomRight = 0x2518, Horizontal = 0x2500, Vertical = 0x2502, Cross = 0x253C,
     TopTee = 0x252C, BottomTee = 0x2534, LeftTee = 0x251C, RightTee = 0x2524\<rparr>"

definition StyleDouble :: Style where
  "StyleDouble = \<lparr>TopLeft = 0x2554, TopRight = 0x2557, BottomLeft = 0x255A,
     BottomRight = 0x255D, Horizontal = 0x2550, Vertical = 0x2551, Cross = 0x256C,
     TopTee = 0x2566, BottomTee = 0x2569, LeftTee = 0x2560, RightTee = 0x2563\<rparr>"

definition StyleRounded :: Style where
  "StyleRounded = \<lparr>TopLeft = 0x256D, TopRight = 0x256E, BottomLeft = 0x2570,
     BottomRight = 0x256F, Horizontal = 0x2500, Vertical = 0x2502, Cross = 0x253C,
     TopTee = 0x252C, BottomTee = 0x2534, LeftTee = 0x251C, RightTee = 0x2524\<rparr>"

definition StyleASCII :: Style where
  "StyleASCII = \<lparr>TopLeft = 0x2B, TopRight = 0x2B, BottomLeft = 0x2B,
     BottomRight = 0x2B, Horizontal = 0x2D, Vertical = 0x7C, Cross = 0x2B,
     TopTee = 0x2B, BottomTee = 0x2B, LeftTee = 0x2B, RightTee = 0x2B\<rparr>"

definition StyleNone :: Style where
  "StyleNone = \<lparr>TopLeft = 0x20, TopRight = 0x20, BottomLeft = 0x20,
     BottomRight = 0x20, Horizontal = 0x20, Vertical = 0x20, Cross = 0x20,
     TopTee = 0x20, BottomTee = 0x20, LeftTee = 0x20, RightTee = 0x20\<rparr>"

definition appendRune :: "byte list \<Rightarrow> rune \<Rightarrow> byte list" where
  "appendRune b r = (if r < 0x80 then b @ [byteOf r] else b @ EncodeRune r)"

text \<open>\<open>for j := 0; j < width+2; j++ { result = appendRune(result, fillChar) }\<close>, by the
  number of rounds left.\<close>

fun fillLoop :: "nat \<Rightarrow> rune \<Rightarrow> byte list \<Rightarrow> byte list" where
  "fillLoop 0 fillChar result = result"
| "fillLoop (Suc j) fillChar result = fillLoop j fillChar (appendRune result fillChar)"

text \<open>The loop over \<open>widths\<close> of \<open>renderBorderLine\<close>; \<open>i < len(widths)-1\<close> holds when
  columns remain.\<close>

fun borderLoop :: "rune \<Rightarrow> rune \<Rightarrow> int list \<Rightarrow> byte list \<Rightarrow> byte list" where
  "borderLoop fillChar sepChar [] result = result"
| "borderLoop fillChar sepChar (width # rest) result =
    borderLoop fillChar sepChar rest
      (let filled = fillLoop (nat (width + 2)) fillChar result
       in if rest \<noteq> [] then appendRune filled sepChar else filled)"

text \<open>
  The first loop of \<open>renderBorderLine\<close>, which adds up \<open>totalLength\<close>: \<open>width + 2\<close> for
  every column and 1 for every separator.
\<close>

fun lengthLoop :: "int list \<Rightarrow> int \<Rightarrow> int" where
  "lengthLoop [] totalLength = totalLength"
| "lengthLoop (width # rest) totalLength =
    lengthLoop rest
      (let totalLength = totalLength + (width + 2)
       in if rest \<noteq> [] then totalLength + 1 else totalLength)"

text \<open>
  \<open>renderBorderLine\<close>.  \<open>make([]byte, 0, totalLength)\<close> panics (\<open>None\<close>) when
  \<open>totalLength\<close> is negative, which negative column widths can bring about.
\<close>

definition renderBorderLine :: "Style \<Rightarrow> int list \<Rightarrow> string \<Rightarrow> byte list option" where
  "renderBorderLine s widths lineType =
    (if length widths = 0 then Some []
     else
       let totalLength = lengthLoop widths 1;
           totalLength = totalLength + 1;
           totalLength = totalLength + 1
       in
       if totalLength < 0 then None
       else
         let (startChar, endChar, sepChar, fillChar) =
               (if lineType = ''top'' then (TopLeft s, TopRight s, TopTee s, Horizontal s)
                else if lineType = ''middle'' \<or> lineType = ''header''
                  then (LeftTee s, RightTee s, Cross s, Horizontal s)
                else if lineType = ''bottom''
                  then (BottomLeft s, BottomRight s, BottomTee s, Horizontal s)
                else (LeftTee s, RightTee s, Cross s, Horizontal s));
             result = appendRune [] startChar;
             result = borderLoop fillChar sepChar widths result;
             result = appendRune result endChar
         in Some (result @ [CHR 0x0A]))"

section \<open>table.go: the table\<close>

text \<open>
  \<open>type Align int\<close> with the constants \<open>AlignLeft\<close>, \<open>AlignCenter\<close>, \<open>AlignRight\<close>
  (\<open>iota\<close>); every other value takes the \<open>default\<close> branch of the switches.
\<close>

type_synonym Align = int

definition AlignLeft :: Align where "AlignLeft = 0"
definition AlignCenter :: Align where "AlignCenter = 1"
definition AlignRight :: Align where "AlignRight = 2"

text \<open>
  The struct \<open>Table\<close>.  The field \<open>bufPool\<close> is left out: a render takes a buffer from
  the pool and resets it before the first write, so the buffer starts empty, and its
  contents are copied out (or written out) before it is put back.
\<close>

record Table =
  headers :: "byte list list"
  rows :: "byte list list list"
  style :: Style
  aligns :: "Align list"
  maxWidths :: "int list"
  widthFunc :: WidthFunc

definition New :: "byte list list \<Rightarrow> Table" where
  "New hs = \<lparr>headers = hs, rows = [], style = StyleSingle,
     aligns = replicate (length hs) AlignLeft, maxWidths = replicate (length hs) 0,
     widthFunc = DefaultWidthFunc\<rparr>"

definition NewFromStrings :: "string list \<Rightarrow> Table" where
  "NewFromStrings hs = New hs"

text \<open>
  The values \<open>AddRow\<close> accepts (\<open>interface{}\<close>), by the branches of its type switch.  A
  string is the list of its bytes.  For \<open>float64\<close> and for the \<open>default\<close> branch the value
  carries the text that \<open>strconv.AppendFloat(nil, v, 'f', -1, 64)\<close> and
  \<open>fmt.Sprintf("%v", v)\<close> produce for it: those conversions are not modelled.
\<close>

datatype gvalue =
  VBytes "byte list"
| VString string
| VInt int
| VInt64 int
| VFloat64 string
| VBool bool
| VOther string

text \<open>\<open>strconv.AppendInt(nil, v, 10)\<close>: decimal digits, with a minus sign for negatives.\<close>

fun digitsOf :: "nat \<Rightarrow> string" where
  "digitsOf n =
    (if n < 10 then [char_of (48 + n)] else digitsOf (n div 10) @ [char_of (48 + n mod 10)])"

definition AppendInt :: "int \<Rightarrow> string" where
  "AppendInt v = (if v < 0 then CHR ''-'' # digitsOf (nat (- v)) else digitsOf (nat v))"

definition AppendBool :: "bool \<Rightarrow> string" where
  "AppendBool v = (if v then ''true'' else ''false'')"

fun toBytes :: "gvalue \<Rightarrow> byte list" where
  "toBytes (VBytes v) = v"
| "toBytes (VString v) = v"
| "toBytes (VInt v) = AppendInt v"
| "toBytes (VInt64 v) = AppendInt v"
| "toBytes (VFloat64 v) = v"
| "toBytes (VBool v) = AppendBool v"
| "toBytes (VOther v) = v"

text \<open>
  \<open>AddRow\<close>: the row has \<open>len(t.headers)\<close> cells; the first loop converts the values up to
  the header count, the second fills the remaining columns with empty cells.
\<close>

definition AddRow :: "Table \<Rightarrow> gvalue list \<Rightarrow> Table" where
  "AddRow t vals =
    (if length vals = 0 then t
     else
       let row = map toBytes (take (length (headers t)) vals)
                 @ replicate (length (headers t) - length vals) []
       in t\<lparr>rows := rows t @ [row]\<rparr>)"

definition AddRowBytes :: "Table \<Rightarrow> byte list list \<Rightarrow> Table" where
  "AddRowBytes t vals =
    (if length vals = 0 then t
     else
       let row = take (length (headers t)) vals
                 @ replicate (length (headers t) - length vals) []
       in t\<lparr>rows := rows t @ [row]\<rparr>)"

definition SetStyle :: "Table \<Rightarrow> Style \<Rightarrow> Table" where
  "SetStyle t s = t\<lparr>style := s\<rparr>"

definition SetAlign :: "Table \<Rightarrow> int \<Rightarrow> Align \<Rightarrow> Table" where
  "SetAlign t col align =
    (if col \<ge> 0 \<and> col < int (length (aligns t))
     then t\<lparr>aligns := (aligns t)[nat col := align]\<rparr> else t)"

definition SetMaxWidth :: "Table \<Rightarrow> int \<Rightarrow> int \<Rightarrow> Table" where
  "SetMaxWidth t col width =
    (if col \<ge> 0 \<and> col < int (length (maxWidths t))
     then t\<lparr>maxWidths := (maxWidths t)[nat col := width]\<rparr> else t)"

definition SetWidthFunc :: "Table \<Rightarrow> WidthFunc \<Rightarrow> Table" where
  "SetWidthFunc t fn = t\<lparr>widthFunc := fn\<rparr>"

subsection \<open>measureColumns\<close>

text \<open>\<open>for i, cell := range row\<close>, from index \<open>i\<close> on.\<close>

fun measureRow :: "WidthFunc \<Rightarrow> nat \<Rightarrow> byte list list \<Rightarrow> int list \<Rightarrow> int list" where
  "measureRow wfn i [] widths = widths"
| "measureRow wfn i (cell # rest) widths =
    measureRow wfn (i + 1) rest
      (if i < length widths then
         (let cellWidth = MeasureWidthIgnoreANSIBytesCustom cell wfn
          in if cellWidth > widths ! i then widths[i := cellWidth] else widths)
       else widths)"

text \<open>\<open>for _, row := range t.rows\<close>.\<close>

fun measureRows :: "WidthFunc \<Rightarrow> byte list list list \<Rightarrow> int list \<Rightarrow> int list" where
  "measureRows wfn [] widths = widths"
| "measureRows wfn (row # rest) widths = measureRows wfn rest (measureRow wfn 0 row widths)"

text \<open>
  \<open>for i, maxWidth := range t.maxWidths\<close>, from index \<open>i\<close> on.  \<open>widths[i]\<close> is read only
  when \<open>maxWidth > 0\<close>; out of range it panics (\<open>None\<close>).
\<close>

fun applyMaxWidths :: "nat \<Rightarrow> int list \<Rightarrow> int list \<Rightarrow> int list option" where
  "applyMaxWidths i [] widths = Some widths"
| "applyMaxWidths i (maxWidth # rest) widths =
    (if maxWidth > 0 then
       (if i < length widths
        then applyMaxWidths (i + 1) rest
               (if widths ! i > maxWidth then widths[i := maxWidth] else widths)
        else None)
     else applyMaxWidths (i + 1) rest widths)"

definition measureColumns :: "Table \<Rightarrow> int list option" where
  "measureColumns t =
    (if length (headers t) = 0 then Some []
     else
       let widths = map (\<lambda>header. MeasureWidthIgnoreANSIBytesCustom header (widthFunc t))
                        (headers t);
           widths = measureRows (widthFunc t) (rows t) widths
       in applyMaxWidths 0 (maxWidths t) widths)"

subsection \<open>Formatting a cell\<close>

definition truncateWithANSI :: "Table \<Rightarrow> byte list \<Rightarrow> int \<Rightarrow> byte list" where
  "truncateWithANSI t cell maxWidth =
    (if \<not> HasANSIBytes cell then TruncateToWidthBytes cell maxWidth
     else
       let stripped = StripANSIBytes cell in
       if StringWidthBytesCustom stripped (widthFunc t) \<le> maxWidth then cell
       else TruncateToWidthBytes stripped maxWidth)"

text \<open>\<open>padWithANSI\<close> (its receiver is unused).  \<open>padding\<close> is positive where it is
  divided, so Go's truncating division is \<open>div\<close>.\<close>

definition padWithANSI :: "byte list \<Rightarrow> int \<Rightarrow> int \<Rightarrow> Align \<Rightarrow> byte list" where
  "padWithANSI cell targetWidth currentWidth align =
    (let padding = targetWidth - currentWidth in
     if padding \<le> 0 then cell
     else if align = AlignCenter then
       (let leftPad = padding div 2; rightPad = padding - leftPad
        in replicate (nat leftPad) CHR '' '' @ cell @ replicate (nat rightPad) CHR '' '')
     else if align = AlignRight then replicate (nat padding) CHR '' '' @ cell
     else cell @ replicate (nat padding) CHR '' '')"

definition alignCell :: "Table \<Rightarrow> byte list \<Rightarrow> int \<Rightarrow> Align \<Rightarrow> byte list" where
  "alignCell t cell width align =
    (let cellWidth = MeasureWidthIgnoreANSIBytesCustom cell (widthFunc t) in
     if cellWidth \<ge> width then truncateWithANSI t cell width
     else padWithANSI cell width cellWidth align)"

subsection \<open>Rendering\<close>

text \<open>
  A \<open>bytes.Buffer\<close> is the list of its bytes; a write appends.  \<open>WriteRune\<close> writes one
  byte for a rune below \<open>0x80\<close> (compared as unsigned) and its UTF-8 encoding otherwise.
\<close>

definition WriteRune :: "byte list \<Rightarrow> rune \<Rightarrow> byte list" where
  "WriteRune buf r = (if 0 \<le> r \<and> r < 0x80 then buf @ [byteOf r] else buf @ EncodeRune r)"

text \<open>\<open>renderBorder\<close>: the border line is written to the buffer; the panic of
  \<open>renderBorderLine\<close> is handed on.\<close>

definition renderBorder :: "Table \<Rightarrow> byte list \<Rightarrow> int list \<Rightarrow> string \<Rightarrow> byte list option" where
  "renderBorder t buf widths borderType =
    (if length widths = 0 then Some buf
     else (case renderBorderLine (style t) widths borderType of
             None \<Rightarrow> None
           | Some borderBytes \<Rightarrow> Some (buf @ borderBytes)))"

text \<open>\<open>for i, width := range widths\<close> of \<open>renderRow\<close>, from index \<open>i\<close> on.  A missing
  cell is the nil slice.\<close>

fun renderCells :: "Table \<Rightarrow> byte list list \<Rightarrow> nat \<Rightarrow> int list \<Rightarrow> byte list \<Rightarrow> byte list" where
  "renderCells t row i [] buf = buf"
| "renderCells t row i (width # rest) buf =
    renderCells t row (i + 1) rest
      (let buf = buf @ [CHR '' ''];
           cell = (if i < length row then row ! i else []);
           align = (if i < length (aligns t) then aligns t ! i else AlignLeft);
           alignedCell = alignCell t cell width align;
           buf = buf @ alignedCell;
           buf = buf @ [CHR '' '']
       in WriteRune buf (Vertical (style t)))"

definition renderRow :: "Table \<Rightarrow> byte list \<Rightarrow> byte list list \<Rightarrow> int list \<Rightarrow> byte list" where
  "renderRow t buf row widths =
    (if length widths = 0 then buf
     else
       let buf = WriteRune buf (Vertical (style t));
           buf = renderCells t row 0 widths buf
       in buf @ [CHR 0x0A])"

text \<open>\<open>for _, row := range t.rows { t.renderRow(buf, row, widths) }\<close>.\<close>

fun renderRows :: "Table \<Rightarrow> byte list list list \<Rightarrow> int list \<Rightarrow> byte list \<Rightarrow> byte list" where
  "renderRows t [] widths buf = buf"
| "renderRows t (row # rest) widths buf = renderRows t rest widths (renderRow t buf row widths)"

text \<open>
  \<open>String\<close>.  The result is \<open>None\<close> when \<open>measureColumns\<close> or a \<open>renderBorder\<close> panics.
\<close>

definition String :: "Table \<Rightarrow> string option" where
  "String t =
    (if length (headers t) = 0 then Some []
     else
       (case measureColumns t of
          None \<Rightarrow> None
        | Some widths \<Rightarrow>
            (case renderBorder t [] widths ''top'' of
               None \<Rightarrow> None
             | Some buf \<Rightarrow>
                 (case renderBorder t (renderRow t buf (headers t) widths) widths ''middle'' of
                    None \<Rightarrow> None
                  | Some buf \<Rightarrow>
                      (case renderBorder t (renderRows t (rows t) widths buf) widths ''bottom'' of
                         None \<Rightarrow> None
                       | Some buf \<Rightarrow> Some buf)))))"

text \<open>
  An \<open>io.Writer\<close> is given by its \<open>Write\<close> method: from the state of the sink and the
  bytes offered, the new state, the count and the error it returns.
\<close>

datatype io_error = ErrShortWrite | ErrWriter string

type_synonym 's Writer = "'s \<Rightarrow> byte list \<Rightarrow> 's \<times> int \<times> io_error option"

text \<open>
  \<open>bytes.Buffer.WriteTo\<close> of the standard library: one \<open>Write\<close> of the whole contents
  when there are any; it panics (\<open>None\<close>) when the writer reports more bytes than it was
  given, hands on the writer's error, and reports \<open>io.ErrShortWrite\<close> for a short count.
\<close>

definition Buffer_WriteTo :: "byte list \<Rightarrow> 's Writer \<Rightarrow> 's \<Rightarrow> ('s \<times> int \<times> io_error option) option" where
  "Buffer_WriteTo buf w s =
    (if length buf > 0 then
       (case w s buf of (s', m, e) \<Rightarrow>
          if m > int (length buf) then None
          else (case e of
                  Some err \<Rightarrow> Some (s', m, Some err)
                | None \<Rightarrow> if m \<noteq> int (length buf) then Some (s', m, Some ErrShortWrite)
                          else Some (s', m, None)))
     else Some (s, 0, None))"

definition WriteTo :: "Table \<Rightarrow> 's Writer \<Rightarrow> 's \<Rightarrow> ('s \<times> int \<times> io_error option) option" where
  "WriteTo t w s =
    (if length (headers t) = 0 then Some (s, 0, None)
     else
       (case measureColumns t of
          None \<Rightarrow> None
        | Some widths \<Rightarrow>
            (case renderBorder t [] widths ''top'' of
               None \<Rightarrow> None
             | Some buf \<Rightarrow>
                 (case renderBorder t (renderRow t buf (headers t) widths) widths ''middle'' of
                    None \<Rightarrow> None
                  | Some buf \<Rightarrow>
                      (case renderBorder t (renderRows t (rows t) widths buf) widths ''bottom'' of
                         None \<Rightarrow> None
                       | Some buf \<Rightarrow> Buffer_WriteTo buf w s)))))"

text \<open>A sink that keeps every byte it is given, such as a \<open>bytes.Buffer\<close>: its state is
  what has been written to it.\<close>

definition memWriter :: "(byte list) Writer" where
  "memWriter s p = (s @ p, int (length p), None)"

subsection \<open>Sequences of calls on a table\<close>

text \<open>The mutating calls of the public interface, and a chain of them applied to a table
  from left to right.\<close>

datatype TableOp =
  OpAddRow "gvalue list"
| OpAddRowBytes "byte list list"
| OpSetStyle Style
| OpSetAlign int Align
| OpSetMaxWidth int int
| OpSetWidthFunc WidthFunc

fun applyOp :: "Table \<Rightarrow> TableOp \<Rightarrow> Table" where
  "applyOp t (OpAddRow vals) = AddRow t vals"
| "applyOp t (OpAddRowBytes vals) = AddRowBytes t vals"
| "applyOp t (OpSetStyle s) = SetStyle t s"
| "applyOp t (OpSetAlign col align) = SetAlign t col align"
| "applyOp t (OpSetMaxWidth col width) = SetMaxWidth t col width"
| "applyOp t (OpSetWidthFunc fn) = SetWidthFunc t fn"

definition applyOps :: "Table \<Rightarrow> TableOp list \<Rightarrow> Table" where
  "applyOps t ops = foldl applyOp t ops"

section \<open>Notions used in the statements\<close>

text \<open>
  The shape that \<open>New\<close> gives a table and every call keeps: one alignment and one maximum
  width per header, and one cell per header in every row.
\<close>

definition wellFormed :: "Table \<Rightarrow> bool" where
  "wellFormed t \<longleftrightarrow> length (aligns t) = length (headers t)
     \<and> length (maxWidths t) = length (headers t)
     \<and> list_all (\<lambda>row. length row = length (headers t)) (rows t)"

text \<open>A row's cell at a column, an absent cell being the empty cell (of width 0).\<close>

definition cellAt :: "byte list list \<Rightarrow> nat \<Rightarrow> byte list" where
  "cellAt row i = (if i < length row then row ! i else [])"

text \<open>
  The column width as the specification words it: the maximum of the measured width of the
  header and of every row's cell at that index, then clipped to a positive maximum.
\<close>

definition maxCellWidth :: "Table \<Rightarrow> nat \<Rightarrow> int" where
  "maxCellWidth t i =
    Max (insert (MeasureWidthIgnoreANSIBytesCustom (headers t ! i) (widthFunc t))
          ((\<lambda>row. MeasureWidthIgnoreANSIBytesCustom (cellAt row i) (widthFunc t)) ` set (rows t)))"

definition clipWidth :: "int \<Rightarrow> int \<Rightarrow> int" where
  "clipWidth maxWidth w = (if maxWidth > 0 \<and> w > maxWidth then maxWidth else w)"

text \<open>
  Whether the body of a CSI sequence (after \<open>ESC [\<close>) reaches its final byte, and
  whether every escape sequence that the measurement skips in a buffer does: the scan is
  that of \<open>MeasureWidthIgnoreANSIBytesCustom\<close>.  A sequence that is cut off by the end of
  the buffer is the one case excluded.
\<close>

fun csiClosed :: "byte list \<Rightarrow> bool" where
  "csiClosed [] = False"
| "csiClosed (c # cs) = (isFinalByte c \<or> (isParamByte c \<and> csiClosed cs))"

function closedEscapes :: "byte list \<Rightarrow> bool" where
  "closedEscapes [] = True"
| "closedEscapes (c # cs) =
    (let k = escapeLen (c # cs) in
     if k > 0 then csiClosed (drop 2 (c # cs)) \<and> closedEscapes (drop k (c # cs))
     else closedEscapes (drop (snd (DecodeRune (c # cs))) (c # cs)))"
  by pat_completeness auto
termination
proof (relation "measure length", goal_cases)
  case 1
  show ?case by simp
next
  case (2 c cs k)
  then show ?case by simp
next
  case (3 c cs k)
  have "1 \<le> snd (DecodeRune (c # cs))"
    by (auto simp: Let_def decodeTail_def)
  then show ?case by simp
qed

text \<open>
  A width function a caller may install with \<open>SetWidthFunc\<close>: it gives the Greek letters
  \<open>U+0391\<close> to \<open>U+03C9\<close> (of ambiguous East Asian width) two columns, and agrees with
  \<open>RuneWidth\<close> elsewhere.
\<close>

definition greekWide :: WidthFunc where
  "greekWide r = (if 0x0391 \<le> r \<and> r \<le> 0x03C9 then 2 else RuneWidth r)"

section \<open>Evaluation on concrete inputs\<close>

lemma fillLoop_numeral: "fillLoop (numeral n) c r = fillLoop (pred_numeral n) c (appendRune r c)"
  by (simp add: numeral_eq_Suc)

lemma replicate_numeral: "replicate (numeral n) x = x # replicate (pred_numeral n) x"
  by (simp add: numeral_eq_Suc)

lemmas width_eval = bval_def seqLen_def decodeTail_def acceptLo_def acceptHi_def RuneWidth_def
  RuneError_def zeroWidthRanges_def wideRanges_def mkRange_def inRange_def
  isParamByte_def isFinalByte_def DefaultWidthFunc_def Let_def

lemmas cell_eval = width_eval TruncateToWidthBytes_def alignCell_def truncateWithANSI_def
  padWithANSI_def AlignLeft_def AlignCenter_def AlignRight_def replicate_numeral

lemmas table_eval = cell_eval New_def NewFromStrings_def AddRow_def AddRowBytes_def
  SetStyle_def SetAlign_def SetMaxWidth_def SetWidthFunc_def measureColumns_def
  renderBorder_def renderRow_def String_def WriteTo_def Buffer_WriteTo_def memWriter_def
  WriteRune_def appendRune_def renderBorderLine_def EncodeRune_def byteOf_def
  StyleASCII_def StyleSingle_def AppendInt_def AppendBool_def fillLoop_numeral
  char_of_def bit_Suc_0_iff applyOps_def

section \<open>The width classifier\<close>

lemma firstRange_mem: "firstRange rs r = Some rang \<Longrightarrow> rang \<in> set rs"
  by (induction rs) (auto split: if_splits)

lemma wideRanges_width: "rang \<in> set wideRanges \<Longrightarrow> range_width rang = 2"
  by (auto simp: wideRanges_def mkRange_def)

lemma RuneWidth_cases: "RuneWidth r = 0 \<or> RuneWidth r = 1 \<or> RuneWidth r = 2"
  by (auto simp: RuneWidth_def split: option.splits dest!: firstRange_mem wideRanges_width)

lemma RuneWidth_nonneg: "0 \<le> RuneWidth r"
  using RuneWidth_cases [of r] by auto

lemma RuneWidth_le2: "RuneWidth r \<le> 2"
  using RuneWidth_cases [of r] by auto

text \<open>
  C8.  The width classifier is total with values 0, 1 and 2; the printable ASCII code
  points \<open>0x20\<close> to \<open>0x7E\<close> have width 1 and the control codes below \<open>0x20\<close> width 0.
\<close>

theorem RuneWidth_total:
  "RuneWidth r \<in> {0, 1, 2}
   \<and> (0x20 \<le> r \<and> r \<le> 0x7E \<longrightarrow> RuneWidth r = 1)
   \<and> (r < 0x20 \<longrightarrow> RuneWidth r = 0)"
  using RuneWidth_cases [of r] by (auto simp: RuneWidth_def)

theorem RuneWidth_total_witness:
  "(0x20::int) \<le> 0x41 \<and> (0x41::int) \<le> 0x7E \<and> RuneWidth 0x41 = 1
   \<and> (0x0A::int) < 0x20 \<and> RuneWidth 0x0A = 0
   \<and> RuneWidth 0x65E5 \<in> {0, 1, 2}"
  using RuneWidth_total [of "0x41"] RuneWidth_total [of "0x0A"] RuneWidth_total [of "0x65E5"]
  by simp

section \<open>The width tables\<close>

lemma inRange_overlap: "inRange r a \<Longrightarrow> inRange r b \<Longrightarrow> overlap a b"
  by (auto simp: inRange_def overlap_def)

lemma nonOverlapping_filter: "nonOverlapping rs \<Longrightarrow> length (filter (inRange r) rs) \<le> 1"
proof (induction rs)
  case Nil
  then show ?case by simp
next
  case (Cons a rs)
  show ?case
  proof (cases "inRange r a")
    case True
    have "filter (inRange r) rs = []"
      using Cons.prems True by (auto simp: filter_empty_conv list_all_iff dest: inRange_overlap)
    with True show ?thesis by simp
  next
    case False
    with Cons show ?thesis by simp
  qed
qed

lemma nonOverlapping_tables: "nonOverlapping (zeroWidthRanges @ wideRanges)"
  by (simp add: zeroWidthRanges_def wideRanges_def mkRange_def overlap_def)

text \<open>
  C4, as stated, fails: neither table is sorted by start code point (the wide table
  begins with \<open>0x4E00\<close> followed by \<open>0x3400\<close>, the zero-width table has \<open>0xFE20\<close> before
  \<open>0x200B\<close>).
\<close>

theorem widthTables_not_sorted:
  "\<not> sortedByStart zeroWidthRanges \<and> \<not> sortedByStart wideRanges"
  by (simp add: sortedByStart_def zeroWidthRanges_def wideRanges_def mkRange_def)

text \<open>
  C4, amended.  The ranges of the zero-width table do not overlap one another, nor do
  the ranges of the wide table; no zero-width range overlaps a wide range; hence every
  code point lies in at most one entry of the two tables.  (The tables are not sorted;
  \<open>RuneWidth\<close> scans them linearly.)
\<close>

theorem widthTables_disjoint:
  "nonOverlapping zeroWidthRanges \<and> nonOverlapping wideRanges
   \<and> list_all (\<lambda>a. list_all (\<lambda>b. \<not> overlap a b) wideRanges) zeroWidthRanges
   \<and> length (matchingEntries r) \<le> 1"
proof -
  have "nonOverlapping zeroWidthRanges"
    by (simp add: zeroWidthRanges_def mkRange_def overlap_def)
  moreover have "nonOverlapping wideRanges"
    by (simp add: wideRanges_def mkRange_def overlap_def)
  moreover have "list_all (\<lambda>a. list_all (\<lambda>b. \<not> overlap a b) wideRanges) zeroWidthRanges"
    by (simp add: zeroWidthRanges_def wideRanges_def mkRange_def overlap_def)
  moreover have "length (matchingEntries r) \<le> 1"
    unfolding matchingEntries_def by (rule nonOverlapping_filter [OF nonOverlapping_tables])
  ultimately show ?thesis by simp
qed

theorem widthTables_disjoint_witness:
  "length (matchingEntries 0x65E5) \<le> 1 \<and> matchingEntries 0x65E5 = [mkRange 0x4E00 0x9FFF 2]"
  using widthTables_disjoint [of "0x65E5"]
  by (simp add: matchingEntries_def zeroWidthRanges_def wideRanges_def mkRange_def inRange_def)

section \<open>Rows without values\<close>

text \<open>
  C10.  \<open>AddRow\<close> and \<open>AddRowBytes\<close> called with no values return the table as it is:
  no row is appended and no field changes.
\<close>

theorem AddRow_no_values: "AddRow t [] = t \<and> AddRowBytes t [] = t"
  by (simp add: AddRow_def AddRowBytes_def)

theorem AddRow_no_values_witness:
  "rows (AddRow (New [''A'', ''B'']) []) = [] \<and> AddRowBytes (New [''A'', ''B'']) [] = New [''A'', ''B'']"
  using AddRow_no_values [of "New [''A'', ''B'']"] by (simp add: New_def)

section \<open>Rendering\<close>

text \<open>
  C7.  \<open>WriteTo\<close> hands to the writer, in one \<open>Write\<close>, the bytes that \<open>String\<close> returns
  (and panics where \<open>String\<close> does); into a sink that accepts what it is given it writes
  exactly those bytes, and returns their number and no error.
\<close>

theorem WriteTo_String:
  "WriteTo t w s = (case String t of None \<Rightarrow> None | Some out \<Rightarrow> Buffer_WriteTo out w s)
   \<and> (String t = Some out \<longrightarrow>
        WriteTo t memWriter s0 = Some (s0 @ out, int (length out), None))"
proof -
  have eq: "WriteTo t w' s' = (case String t of None \<Rightarrow> None | Some out \<Rightarrow> Buffer_WriteTo out w' s')"
    for w' :: "'b Writer" and s'
    by (simp add: WriteTo_def String_def Buffer_WriteTo_def Let_def split: option.splits)
  have "WriteTo t memWriter s0 = Some (s0 @ out, int (length out), None)" if "String t = Some out"
    using that eq [of memWriter s0] by (simp add: Buffer_WriteTo_def memWriter_def)
  with eq [of w s] show ?thesis by simp
qed

theorem WriteTo_String_witness:
  "String (SetStyle (New [''A'']) StyleASCII)
     = Some (''+---+'' @ [CHR 0x0A] @ ''| A |'' @ [CHR 0x0A] @ ''+---+'' @ [CHR 0x0A] @ ''+---+'' @ [CHR 0x0A])
   \<and> WriteTo (SetStyle (New [''A'']) StyleASCII) memWriter ''log: ''
     = Some (''log: +---+'' @ [CHR 0x0A] @ ''| A |'' @ [CHR 0x0A] @ ''+---+'' @ [CHR 0x0A] @ ''+---+'' @ [CHR 0x0A], 24, None)"
proof -
  have s: "String (SetStyle (New [''A'']) StyleASCII)
     = Some (''+---+'' @ [CHR 0x0A] @ ''| A |'' @ [CHR 0x0A] @ ''+---+'' @ [CHR 0x0A] @ ''+---+'' @ [CHR 0x0A])"
    by (simp add: table_eval)
  show ?thesis
    using s WriteTo_String [of "SetStyle (New [''A'']) StyleASCII" memWriter "''log: ''"
        "''+---+'' @ [CHR 0x0A] @ ''| A |'' @ [CHR 0x0A] @ ''+---+'' @ [CHR 0x0A] @ ''+---+'' @ [CHR 0x0A]" "''log: ''"]
    by (simp add: Buffer_WriteTo_def memWriter_def)
qed

lemma headers_applyOp: "headers (applyOp t oper) = headers t"
  by (cases oper) (simp_all add: AddRow_def AddRowBytes_def SetStyle_def SetAlign_def
      SetMaxWidth_def SetWidthFunc_def Let_def)

lemma headers_applyOps: "headers (applyOps t ops) = headers t"
  unfolding applyOps_def by (induction ops arbitrary: t) (simp_all add: headers_applyOp)

text \<open>
  C9.  A table constructed with zero headers renders to nothing, whatever calls were
  made on it before: \<open>String\<close> returns the empty string, \<open>WriteTo\<close> leaves the sink as it
  is and returns \<open>(0, nil)\<close>.
\<close>

theorem zero_headers_render:
  "String (applyOps (New []) ops) = Some []
   \<and> WriteTo (applyOps (New []) ops) w s = Some (s, 0, None)
   \<and> String (applyOps (NewFromStrings []) ops) = Some []
   \<and> WriteTo (applyOps (NewFromStrings []) ops) w s = Some (s, 0, None)"
proof -
  have "headers (applyOps (New []) ops) = []"
    by (simp add: headers_applyOps New_def)
  then show ?thesis by (simp add: String_def WriteTo_def NewFromStrings_def)
qed

theorem zero_headers_render_witness:
  "String (applyOps (New []) [OpAddRow [VString ''x'', VInt 1], OpSetMaxWidth 0 5, OpSetStyle StyleASCII]) = Some []
   \<and> WriteTo (applyOps (New []) [OpAddRow [VString ''x'', VInt 1], OpSetMaxWidth 0 5, OpSetStyle StyleASCII])
        memWriter ''abc'' = Some (''abc'', 0, None)"
  using zero_headers_render [of "[OpAddRow [VString ''x'', VInt 1], OpSetMaxWidth 0 5, OpSetStyle StyleASCII]" memWriter "''abc''"]
  by simp

section \<open>Tables of the public interface\<close>

lemma wellFormed_New: "wellFormed (New hs)"
  by (simp add: wellFormed_def New_def)

lemma wellFormed_applyOp: "wellFormed t \<Longrightarrow> wellFormed (applyOp t oper)"
  by (cases oper) (auto simp: wellFormed_def AddRow_def AddRowBytes_def SetStyle_def
      SetAlign_def SetMaxWidth_def SetWidthFunc_def Let_def)

lemma wellFormed_applyOps: "wellFormed t \<Longrightarrow> wellFormed (applyOps t ops)"
  unfolding applyOps_def by (induction ops arbitrary: t) (simp_all add: wellFormed_applyOp)

lemma maxWidths_applyOps:
  "length (maxWidths (applyOps (New hs) ops)) = length (headers (applyOps (New hs) ops))"
  using wellFormed_applyOps [OF wellFormed_New, of hs ops] by (simp add: wellFormed_def)

section \<open>Column widths\<close>

lemma Measure_nonneg:
  "(\<forall>r. 0 \<le> wfn r) \<Longrightarrow> 0 \<le> MeasureWidthIgnoreANSIBytesCustom b wfn"
proof (induction b wfn rule: MeasureWidthIgnoreANSIBytesCustom.induct)
  case (1 widthFunc)
  then show ?case by simp
next
  case (2 c cs widthFunc)
  obtain r n where d: "DecodeRune (c # cs) = (r, n)" by (cases "DecodeRune (c # cs)")
  show ?case
  proof (cases "escapeLen (c # cs) > 0")
    case True
    with 2 show ?thesis by (simp add: Let_def del: DecodeRune.simps escapeLen.simps)
  next
    case False
    with 2 d show ?thesis
      by (auto simp: Let_def add_nonneg_nonneg simp del: DecodeRune.simps escapeLen.simps)
  qed
qed

lemma measureRow_length: "length (measureRow wfn i cells ws) = length ws"
  by (induction cells arbitrary: i ws) (simp_all add: Let_def)

lemma measureRow_nth:
  "j < length ws \<Longrightarrow>
   measureRow wfn i cells ws ! j =
     (if i \<le> j \<and> j < i + length cells
      then max (ws ! j) (MeasureWidthIgnoreANSIBytesCustom (cells ! (j - i)) wfn)
      else ws ! j)"
proof (induction cells arbitrary: i ws)
  case Nil
  then show ?case by simp
next
  case (Cons cell rest)
  let ?ws' = "(if i < length ws then
         (let cellWidth = MeasureWidthIgnoreANSIBytesCustom cell wfn
          in if cellWidth > ws ! i then ws[i := cellWidth] else ws)
       else ws)"
  have len: "length ?ws' = length ws" by (simp add: Let_def)
  have step: "measureRow wfn i (cell # rest) ws ! j = measureRow wfn (i + 1) rest ?ws' ! j"
    by simp
  have ih: "measureRow wfn (i + 1) rest ?ws' ! j =
     (if i + 1 \<le> j \<and> j < i + 1 + length rest
      then max (?ws' ! j) (MeasureWidthIgnoreANSIBytesCustom (rest ! (j - (i + 1))) wfn)
      else ?ws' ! j)"
    using Cons.IH [of ?ws' "i + 1"] Cons.prems len by simp
  show ?case
  proof (cases "j = i")
    case True
    then have "?ws' ! j = max (ws ! j) (MeasureWidthIgnoreANSIBytesCustom cell wfn)"
      using Cons.prems by (auto simp: Let_def max_def)
    with True step ih show ?thesis by simp
  next
    case False
    then have same: "?ws' ! j = ws ! j" by (simp add: Let_def)
    have "j > i \<Longrightarrow> (cell # rest) ! (j - i) = rest ! (j - (i + 1))"
      by (simp add: nth_Cons')
    with False same step ih show ?thesis by auto
  qed
qed

lemma measureRow_cellAt:
  assumes "j < length ws" "0 \<le> ws ! j" "\<forall>b. 0 \<le> MeasureWidthIgnoreANSIBytesCustom b wfn"
  shows "measureRow wfn 0 row ws ! j
         = max (ws ! j) (MeasureWidthIgnoreANSIBytesCustom (cellAt row j) wfn)"
  using assms by (simp add: measureRow_nth cellAt_def max_def)

lemma Max_insert_max:
  "finite S \<Longrightarrow> Max (insert (max a b) S) = Max (insert a (insert b S))"
  by (cases "S = {}") (simp_all add: max.assoc)

lemma measureRows_length: "length (measureRows wfn rws ws) = length ws"
  by (induction rws arbitrary: ws) (simp_all add: measureRow_length)

lemma measureRows_nth:
  assumes "\<forall>b. 0 \<le> MeasureWidthIgnoreANSIBytesCustom b wfn"
  shows "j < length ws \<Longrightarrow> 0 \<le> ws ! j \<Longrightarrow>
    measureRows wfn rws ws ! j
      = Max (insert (ws ! j) ((\<lambda>row. MeasureWidthIgnoreANSIBytesCustom (cellAt row j) wfn) ` set rws))"
proof (induction rws arbitrary: ws)
  case Nil
  then show ?case by simp
next
  case (Cons row rest)
  let ?f = "\<lambda>row. MeasureWidthIgnoreANSIBytesCustom (cellAt row j) wfn"
  let ?ws' = "measureRow wfn 0 row ws"
  have v: "?ws' ! j = max (ws ! j) (?f row)"
    using measureRow_cellAt [OF Cons.prems(1) Cons.prems(2) assms] .
  then have nn: "0 \<le> ?ws' ! j" using Cons.prems by simp
  have "measureRows wfn (row # rest) ws ! j = Max (insert (?ws' ! j) (?f ` set rest))"
    using Cons.IH [of ?ws'] Cons.prems nn by (simp add: measureRow_length)
  also have "\<dots> = Max (insert (ws ! j) (?f ` set (row # rest)))"
    by (simp add: v Max_insert_max)
  finally show ?case .
qed

lemma applyMaxWidths_spec:
  "i + length ms \<le> length ws \<Longrightarrow>
   \<exists>ws'. applyMaxWidths i ms ws = Some ws' \<and> length ws' = length ws
     \<and> (\<forall>j < length ws. ws' ! j =
           (if i \<le> j \<and> j < i + length ms then clipWidth (ms ! (j - i)) (ws ! j) else ws ! j))"
proof (induction ms arbitrary: i ws)
  case Nil
  then show ?case by simp
next
  case (Cons m rest)
  let ?ws1 = "(if m > 0 \<and> ws ! i > m then ws[i := m] else ws)"
  have len1: "length ?ws1 = length ws" by simp
  have i_lt: "i < length ws" using Cons.prems by simp
  have step: "applyMaxWidths i (m # rest) ws = applyMaxWidths (i + 1) rest ?ws1"
    using i_lt by simp
  from Cons.IH [of "i + 1" ?ws1] Cons.prems len1
  obtain ws' where w: "applyMaxWidths (i + 1) rest ?ws1 = Some ws'" "length ws' = length ws"
    and nth: "\<forall>j < length ws. ws' ! j =
           (if i + 1 \<le> j \<and> j < i + 1 + length rest then clipWidth (rest ! (j - (i + 1))) (?ws1 ! j)
            else ?ws1 ! j)"
    by auto
  have "ws' ! j = (if i \<le> j \<and> j < i + length (m # rest)
            then clipWidth ((m # rest) ! (j - i)) (ws ! j) else ws ! j)" if "j < length ws" for j
  proof (cases "j = i")
    case True
    with nth that have "ws' ! j = ?ws1 ! i" by simp
    also have "\<dots> = clipWidth m (ws ! i)" using i_lt by (simp add: clipWidth_def)
    finally show ?thesis using True by simp
  next
    case False
    have "j > i \<Longrightarrow> (m # rest) ! (j - i) = rest ! (j - (i + 1))"
      by (simp add: nth_Cons')
    moreover have "?ws1 ! j = ws ! j" using False by simp
    ultimately show ?thesis using nth that False by auto
  qed
  with w step show ?case by simp
qed

lemma measureColumns_nth:
  assumes len: "length (maxWidths t) = length (headers t)"
    and nn: "\<forall>r. 0 \<le> widthFunc t r"
    and i: "i < length (headers t)"
  shows "\<exists>widths. measureColumns t = Some widths \<and> length widths = length (headers t)
           \<and> widths ! i = clipWidth (maxWidths t ! i) (maxCellWidth t i)"
proof -
  let ?wfn = "widthFunc t"
  let ?w0 = "map (\<lambda>header. MeasureWidthIgnoreANSIBytesCustom header ?wfn) (headers t)"
  let ?w1 = "measureRows ?wfn (rows t) ?w0"
  have mnn: "\<forall>b. 0 \<le> MeasureWidthIgnoreANSIBytesCustom b ?wfn"
    using nn by (simp add: Measure_nonneg)
  have len1: "length ?w1 = length (headers t)" by (simp add: measureRows_length)
  have w1: "?w1 ! i = maxCellWidth t i"
    using measureRows_nth [OF mnn, of i ?w0 "rows t"] i mnn by (simp add: maxCellWidth_def)
  from applyMaxWidths_spec [of 0 "maxWidths t" ?w1] len len1
  obtain ws' where a: "applyMaxWidths 0 (maxWidths t) ?w1 = Some ws'" "length ws' = length ?w1"
    and nth: "\<forall>j < length ?w1. ws' ! j =
      (if 0 \<le> j \<and> j < 0 + length (maxWidths t) then clipWidth (maxWidths t ! (j - 0)) (?w1 ! j)
       else ?w1 ! j)"
    by auto
  have "ws' ! i = clipWidth (maxWidths t ! i) (maxCellWidth t i)"
    using nth i len len1 w1 by simp
  moreover have "measureColumns t = Some ws'"
    using a i by (auto simp: measureColumns_def Let_def)
  ultimately show ?thesis using a len1 by simp
qed

text \<open>
  C5.  For a table whose \<open>maxWidths\<close> has one entry per header (as \<open>New\<close> builds it and
  every call keeps it) and a width function without negative values, \<open>measureColumns\<close>
  returns one width per header, and the width of column \<open>i\<close> is the maximum of the measured
  widths of the header and of every row's cell at \<open>i\<close> (an absent cell counting 0), clipped
  to \<open>maxWidths[i]\<close> when that is positive.  So it is at least the header's measured
  width, or else it is the positive maximum configured for the column.
\<close>

theorem measureColumns_max:
  assumes "length (maxWidths t) = length (headers t)"
    and "\<forall>r. 0 \<le> widthFunc t r"
    and "i < length (headers t)"
  shows "\<exists>widths. measureColumns t = Some widths \<and> length widths = length (headers t)
           \<and> widths ! i = clipWidth (maxWidths t ! i) (maxCellWidth t i)
           \<and> (MeasureWidthIgnoreANSIBytesCustom (headers t ! i) (widthFunc t) \<le> widths ! i
                \<or> (0 < maxWidths t ! i \<and> widths ! i = maxWidths t ! i))"
proof -
  from measureColumns_nth [OF assms]
  obtain widths where w: "measureColumns t = Some widths" "length widths = length (headers t)"
    "widths ! i = clipWidth (maxWidths t ! i) (maxCellWidth t i)" by blast
  have "MeasureWidthIgnoreANSIBytesCustom (headers t ! i) (widthFunc t) \<le> maxCellWidth t i"
    by (simp add: maxCellWidth_def)
  then have "MeasureWidthIgnoreANSIBytesCustom (headers t ! i) (widthFunc t) \<le> widths ! i
      \<or> (0 < maxWidths t ! i \<and> widths ! i = maxWidths t ! i)"
    using w(3) by (auto simp: clipWidth_def)
  with w show ?thesis by blast
qed


theorem measureColumns_max_witness:
  "measureColumns (SetMaxWidth (AddRow (AddRow (NewFromStrings [''Name'', ''Age''])
       [VString ''Alice'', VInt 30]) [VString ''Bob'']) 0 4) = Some [4, 3]
   \<and> (\<exists>widths. measureColumns (SetMaxWidth (AddRow (AddRow (NewFromStrings [''Name'', ''Age''])
       [VString ''Alice'', VInt 30]) [VString ''Bob'']) 0 4) = Some widths
       \<and> length widths = 2 \<and> widths ! 0 = clipWidth 4 5 \<and> widths ! 0 = 4)"
proof -
  let ?t = "SetMaxWidth (AddRow (AddRow (NewFromStrings [''Name'', ''Age''])
       [VString ''Alice'', VInt 30]) [VString ''Bob'']) 0 4"
  have t: "?t = \<lparr>headers = [''Name'', ''Age''], rows = [[''Alice'', ''30''], [''Bob'', []]],
      style = StyleSingle, aligns = [0, 0], maxWidths = [4, 0], widthFunc = RuneWidth\<rparr>"
    by (simp add: table_eval)
  have 1: "length (maxWidths ?t) = length (headers ?t)" by (simp add: t)
  have 2: "\<forall>r. 0 \<le> widthFunc ?t r" by (simp add: t RuneWidth_nonneg)
  have 3: "0 < length (headers ?t)" by (simp add: t)
  have m: "maxCellWidth ?t 0 = 5"
    unfolding t by (simp add: maxCellWidth_def cellAt_def width_eval)
  have e: "measureColumns ?t = Some [4, 3]"
    unfolding t by (simp add: measureColumns_def width_eval)
  from measureColumns_max [OF 1 2 3] e m show ?thesis
    by (simp add: t clipWidth_def)
qed

section \<open>Truncation on concrete inputs\<close>

text \<open>
  C3.  What the code does on the scenario of the claim: with a maximum width of 5 on the
  column, \<open>measureColumns\<close> gives the column the width 5 and the cell
  \<open>Supercalifragilistic\<close> is rendered as \<open>Super\<close>, five content characters and no
  ellipsis (not \<open>Su...\<close>): the loop of \<open>TruncateToWidthBytes\<close> fills the whole width before
  the test \<open>width <= maxWidth-3\<close> for the ellipsis is made.
\<close>

theorem maxWidth5_truncation:
  "measureColumns (SetMaxWidth (AddRow (NewFromStrings [''Word''])
       [VString ''Supercalifragilistic'']) 0 5) = Some [5]
   \<and> alignCell (SetMaxWidth (AddRow (NewFromStrings [''Word''])
       [VString ''Supercalifragilistic'']) 0 5) ''Supercalifragilistic'' 5 AlignLeft = ''Super''
   \<and> String (SetStyle (SetMaxWidth (AddRow (NewFromStrings [''Word''])
       [VString ''Supercalifragilistic'']) 0 5) StyleASCII)
     = Some (''+-------+'' @ [CHR 0x0A] @ ''| Word  |'' @ [CHR 0x0A] @ ''+-------+'' @ [CHR 0x0A]
             @ ''| Super |'' @ [CHR 0x0A] @ ''+-------+'' @ [CHR 0x0A])"
  by (simp add: table_eval)

text \<open>
  C2.  What the code does with the width function \<open>greekWide\<close> installed and a maximum
  width of 4 on a column that holds the three Greek letters alpha, beta, gamma (six bytes):
  the column is measured with the installed function (cell width 6, clipped to 4), but the
  truncation measures with \<open>RuneWidth\<close> (width 3), finds that the cell fits and returns
  it whole, so the rendered cell is 6 wide under the installed function in a column of
  width 4.
\<close>

theorem truncation_ignores_widthFunc:
  "measureColumns (SetWidthFunc (SetMaxWidth (AddRowBytes (NewFromStrings [''Word''])
       [[CHR 0xCE, CHR 0xB1, CHR 0xCE, CHR 0xB2, CHR 0xCE, CHR 0xB3]]) 0 4) greekWide) = Some [4]
   \<and> alignCell (SetWidthFunc (SetMaxWidth (AddRowBytes (NewFromStrings [''Word''])
       [[CHR 0xCE, CHR 0xB1, CHR 0xCE, CHR 0xB2, CHR 0xCE, CHR 0xB3]]) 0 4) greekWide)
       [CHR 0xCE, CHR 0xB1, CHR 0xCE, CHR 0xB2, CHR 0xCE, CHR 0xB3] 4 AlignLeft
     = [CHR 0xCE, CHR 0xB1, CHR 0xCE, CHR 0xB2, CHR 0xCE, CHR 0xB3]
   \<and> MeasureWidthIgnoreANSIBytesCustom
       [CHR 0xCE, CHR 0xB1, CHR 0xCE, CHR 0xB2, CHR 0xCE, CHR 0xB3] greekWide = 6
   \<and> TruncateToWidthBytes [CHR 0xCE, CHR 0xB1, CHR 0xCE, CHR 0xB2, CHR 0xCE, CHR 0xB3] 4
     = [CHR 0xCE, CHR 0xB1, CHR 0xCE, CHR 0xB2, CHR 0xCE, CHR 0xB3]"
  by (simp add: table_eval greekWide_def)

section \<open>Negative column widths\<close>

text \<open>
  A width function with negative values gives negative column widths; the total length of
  the border line is then negative, \<open>make\<close> panics in \<open>renderBorderLine\<close>, and with it
  \<open>String\<close> and \<open>WriteTo\<close>.
\<close>

lemma renderBorderLine_negative: "renderBorderLine s [- 6] lineType = None"
  by (simp add: renderBorderLine_def)

lemma String_negative_widths:
  "measureColumns (SetWidthFunc (NewFromStrings [''abcdef'']) (\<lambda>r. - 1)) = Some [- 6]
   \<and> String (SetWidthFunc (NewFromStrings [''abcdef'']) (\<lambda>r. - 1)) = None
   \<and> WriteTo (SetWidthFunc (NewFromStrings [''abcdef'']) (\<lambda>r. - 1)) memWriter [] = None"
  by (simp add: table_eval)

section \<open>The decoder\<close>

declare DecodeRune.simps [simp del] escapeLen.simps [simp del]

lemma seqLen_cases: "seqLen v = 2 \<or> seqLen v = 3 \<or> seqLen v = 4"
  by (simp add: seqLen_def)

lemma acceptLo_ge: "0x80 \<le> acceptLo v"
  by (simp add: acceptLo_def)

lemma decodeTail2:
  "snd (decodeTail v0 2 rest) = 1 \<or>
   (snd (decodeTail v0 2 rest) = 2 \<and> (\<forall>j < 2 - 1. 0x80 \<le> bval (rest ! j)))"
  using acceptLo_ge [of v0] by (auto simp: decodeTail_def Let_def)

lemma decodeTail3:
  "snd (decodeTail v0 3 rest) = 1 \<or>
   (snd (decodeTail v0 3 rest) = 3 \<and> (\<forall>j < 3 - 1. 0x80 \<le> bval (rest ! j)))"
  using acceptLo_ge [of v0]
  by (auto simp: decodeTail_def Let_def less_Suc_eq numeral_2_eq_2)

lemma decodeTail4:
  "snd (decodeTail v0 4 rest) = 1 \<or>
   (snd (decodeTail v0 4 rest) = 4 \<and> (\<forall>j < 4 - 1. 0x80 \<le> bval (rest ! j)))"
  using acceptLo_ge [of v0]
  by (auto simp: decodeTail_def Let_def less_Suc_eq numeral_2_eq_2 numeral_3_eq_3)

lemma decodeTail_err:
  "snd (decodeTail v0 sz rest) = 1 \<Longrightarrow> decodeTail v0 sz rest = (RuneError, 1)"
  by (auto simp: decodeTail_def Let_def split: if_splits)

lemma decodeTail_cases:
  assumes "sz = 2 \<or> sz = 3 \<or> sz = 4"
  shows "decodeTail v0 sz rest = (RuneError, 1) \<or>
     (snd (decodeTail v0 sz rest) = sz \<and> (\<forall>j < sz - 1. 0x80 \<le> bval (rest ! j)))"
proof -
  have "snd (decodeTail v0 sz rest) = 1 \<or>
     (snd (decodeTail v0 sz rest) = sz \<and> (\<forall>j < sz - 1. 0x80 \<le> bval (rest ! j)))"
    using assms
  proof (elim disjE)
    assume "sz = 2"
    then show ?thesis using decodeTail2 [of v0 rest] by simp
  next
    assume "sz = 3"
    then show ?thesis using decodeTail3 [of v0 rest] by simp
  next
    assume "sz = 4"
    then show ?thesis using decodeTail4 [of v0 rest] by simp
  qed
  then show ?thesis
  proof
    assume "snd (decodeTail v0 sz rest) = 1"
    then show ?thesis by (simp add: decodeTail_err)
  next
    assume "snd (decodeTail v0 sz rest) = sz \<and> (\<forall>j < sz - 1. 0x80 \<le> bval (rest ! j))"
    then show ?thesis by (rule disjI2)
  qed
qed

lemma decodeTail_take:
  assumes t: "take (sz - 1) rest = take (sz - 1) rest'" and sz: "2 \<le> sz"
  shows "decodeTail v0 sz rest = decodeTail v0 sz rest'"
proof -
  have n: "\<And>j. j < sz - 1 \<Longrightarrow> rest ! j = rest' ! j"
    using t by (metis nth_take)
  have 0: "rest ! 0 = rest' ! 0" using n [of 0] sz by simp
  have 1: "\<not> sz \<le> 2 \<Longrightarrow> rest ! 1 = rest' ! 1" using n [of 1] by simp
  have 2: "\<not> sz \<le> 3 \<Longrightarrow> rest ! 2 = rest' ! 2" using n [of 2] by simp
  show ?thesis using 0 1 2 by (simp add: decodeTail_def Let_def)
qed

text \<open>The size is at least 1 and at most the length.\<close>

lemma DecodeRune_size:
  "DecodeRune (c # cs) = (r, n) \<Longrightarrow> 1 \<le> n \<and> n \<le> length (c # cs)"
  using decodeTail_cases [where sz = "seqLen (bval c)" and ?v0.0 = "bval c" and rest = cs, OF seqLen_cases]
    seqLen_cases [of "bval c"]
  by (auto simp: DecodeRune.simps Let_def Suc_le_eq split: if_splits)

text \<open>A decoding of a buffer is also the decoding of each prefix that holds the bytes
  it reports.\<close>

lemma DecodeRune_take:
  assumes d: "DecodeRune (c # cs) = (r, n)" and k: "n \<le> k"
  shows "DecodeRune (take k (c # cs)) = (r, n)"
proof -
  let ?v = "bval c"
  let ?sz = "seqLen ?v"
  have n1: "1 \<le> n" using DecodeRune_size [OF d] by simp
  then obtain k' where k': "k = Suc k'" using k by (cases k) auto
  have tk: "take k (c # cs) = c # take k' cs" by (simp add: k')
  show ?thesis
  proof (cases "?v < 0x80 \<or> ?v < 0xC2 \<or> 0xF5 \<le> ?v")
    case True
    then show ?thesis using d by (auto simp: tk DecodeRune.simps Let_def)
  next
    case False
    note lead = this
    show ?thesis
    proof (cases "length (c # cs) < ?sz")
      case True
      then have "length (c # take k' cs) < ?sz" by simp
      with True lead d show ?thesis by (simp add: tk DecodeRune.simps Let_def)
    next
      case False
      with lead d have dt: "decodeTail ?v ?sz cs = (r, n)" by (simp add: DecodeRune.simps Let_def)
      from decodeTail_cases [where sz = ?sz and ?v0.0 = ?v and rest = cs, OF seqLen_cases]
      show ?thesis
      proof
        assume e: "decodeTail ?v ?sz cs = (RuneError, 1)"
        show ?thesis
        proof (cases "length (c # take k' cs) < ?sz")
          case True
          with lead dt e show ?thesis by (simp add: tk DecodeRune.simps Let_def)
        next
          case short: False
          then have "?sz - 1 \<le> k'" by (simp split: if_splits)
          then have "take (?sz - 1) (take k' cs) = take (?sz - 1) cs" by (simp add: min_def)
          then have "decodeTail ?v ?sz (take k' cs) = decodeTail ?v ?sz cs"
            using decodeTail_take [where sz = ?sz and rest = "take k' cs" and rest' = cs and ?v0.0 = ?v] seqLen_cases [of ?v] by auto
          with short lead dt show ?thesis by (simp add: tk DecodeRune.simps Let_def)
        qed
      next
        assume "snd (decodeTail ?v ?sz cs) = ?sz \<and> (\<forall>j < ?sz - 1. 0x80 \<le> bval (cs ! j))"
        with dt have nsz: "n = ?sz" by simp
        have "?sz - 1 \<le> k'" using k nsz k' by simp
        then have "take (?sz - 1) (take k' cs) = take (?sz - 1) cs"
          by (simp add: min_def)
        then have "decodeTail ?v ?sz (take k' cs) = decodeTail ?v ?sz cs"
          using decodeTail_take [where sz = ?sz and rest = "take k' cs" and rest' = cs and ?v0.0 = ?v] seqLen_cases [of ?v] by auto
        moreover have "\<not> length (c # take k' cs) < ?sz" using False k nsz k' by simp
        ultimately show ?thesis using lead dt by (simp add: tk DecodeRune.simps Let_def)
      qed
    qed
  qed
qed

text \<open>Spaces appended to a buffer do not change its first code point.\<close>

lemma DecodeRune_append_spaces:
  "DecodeRune ((c # cs) @ replicate m CHR '' '') = DecodeRune (c # cs)"
proof -
  let ?v = "bval c"
  let ?sz = "seqLen ?v"
  let ?sp = "replicate m CHR '' ''"
  show ?thesis
  proof (cases "?v < 0x80 \<or> ?v < 0xC2 \<or> 0xF5 \<le> ?v")
    case True
    then show ?thesis by (auto simp: DecodeRune.simps Let_def)
  next
    case False
    note lead = this
    show ?thesis
    proof (cases "length (c # cs) < ?sz")
      case False
      then have "take (?sz - 1) (cs @ ?sp) = take (?sz - 1) cs" by simp
      then have "decodeTail ?v ?sz (cs @ ?sp) = decodeTail ?v ?sz cs"
        using decodeTail_take [where sz = ?sz and rest = "cs @ ?sp" and rest' = cs and ?v0.0 = ?v] seqLen_cases [of ?v] by auto
      with False lead show ?thesis by (simp add: DecodeRune.simps Let_def)
    next
      case True
      then have e: "DecodeRune (c # cs) = (RuneError, 1)"
        using lead by (simp add: DecodeRune.simps Let_def)
      show ?thesis
      proof (cases "length (c # cs @ ?sp) < ?sz")
        case True
        then show ?thesis using lead e by (simp add: DecodeRune.simps Let_def)
      next
        case long: False
        have j: "length cs < ?sz - 1" using True by simp
        have "length cs < length (cs @ ?sp)" using long True by simp
        then have "(cs @ ?sp) ! length cs = CHR '' ''"
          by (simp add: nth_append)
        then have "bval ((cs @ ?sp) ! length cs) = 0x20" by (simp add: bval_def)
        then have nb: "\<not> 0x80 \<le> bval ((cs @ ?sp) ! length cs)" by simp
        have nall: "\<not> (\<forall>j < ?sz - 1. 0x80 \<le> bval ((cs @ ?sp) ! j))"
        proof
          assume a: "\<forall>j < ?sz - 1. 0x80 \<le> bval ((cs @ ?sp) ! j)"
          from nb a [rule_format, OF j] show False by (rule notE)
        qed
        have "decodeTail ?v ?sz (cs @ ?sp) = (RuneError, 1)"
          using decodeTail_cases [where sz = ?sz and ?v0.0 = ?v and rest = "cs @ ?sp", OF seqLen_cases]
            nall
          by (elim disjE) (assumption, simp)
        with long lead e show ?thesis by (simp add: DecodeRune.simps Let_def)
      qed
    qed
  qed
qed


section \<open>Cells without the escape byte\<close>

declare MeasureWidthIgnoreANSIBytesCustom.simps [simp del] truncLoop.simps [simp del]

lemma bval_ESC: "bval e = 0x1B \<longleftrightarrow> e = CHR 0x1B"
proof -
  have "bval (CHR 0x1B) = 0x1B" by (simp add: bval_def)
  then have "bval e = 0x1B \<longleftrightarrow> bval e = bval (CHR 0x1B)" by simp
  also have "\<dots> \<longleftrightarrow> e = CHR 0x1B" unfolding bval_def by (rule of_char_eq_iff)
  finally show ?thesis .
qed

lemma escapeLen_noESC: "hd b \<noteq> CHR 0x1B \<Longrightarrow> escapeLen b = 0"
proof (cases b)
  case Nil
  then show ?thesis by (simp add: escapeLen.simps)
next
  case (Cons e rest)
  assume "hd b \<noteq> CHR 0x1B"
  with Cons have "bval e \<noteq> 0x1B" by (simp add: bval_ESC)
  then show ?thesis using Cons by (cases rest) (simp_all add: escapeLen.simps)
qed

lemma HasANSIBytes_noESC: "CHR 0x1B \<notin> set b \<Longrightarrow> \<not> HasANSIBytes b"
proof (induction b)
  case Nil
  then show ?case by simp
next
  case (Cons c cs)
  then have "hd (c # cs) \<noteq> CHR 0x1B" by auto
  then have "escapeLen (c # cs) = 0" by (rule escapeLen_noESC)
  with Cons show ?case by simp
qed

lemma RuneWidth_RuneError: "RuneWidth RuneError = 1"
  by (simp add: width_eval)

lemma Measure_Nil: "MeasureWidthIgnoreANSIBytesCustom [] wfn = 0"
  by (simp add: MeasureWidthIgnoreANSIBytesCustom.simps)

text \<open>One step of the measurement where no escape sequence starts.\<close>

lemma Measure_step:
  assumes "c \<noteq> CHR 0x1B" and "DecodeRune (c # cs) = (r, n)"
  shows "MeasureWidthIgnoreANSIBytesCustom (c # cs) wfn =
    (if r = RuneError \<and> n = 1 then 1 else wfn r)
      + MeasureWidthIgnoreANSIBytesCustom (drop n (c # cs)) wfn"
proof -
  have "escapeLen (c # cs) = 0" using assms(1) by (simp add: escapeLen_noESC)
  then show ?thesis using assms(2)
    by (auto simp: MeasureWidthIgnoreANSIBytesCustom.simps Let_def)
qed

lemma Measure_step_RuneWidth:
  assumes "c \<noteq> CHR 0x1B" and "DecodeRune (c # cs) = (r, n)"
  shows "MeasureWidthIgnoreANSIBytesCustom (c # cs) RuneWidth =
    RuneWidth r + MeasureWidthIgnoreANSIBytesCustom (drop n (c # cs)) RuneWidth"
  using Measure_step [OF assms, of RuneWidth] by (auto simp: RuneWidth_RuneError)

lemma DecodeRune_space: "DecodeRune (CHR '' '' # x) = (0x20, 1)"
  by (simp add: DecodeRune.simps bval_def)

lemma Measure_space:
  "MeasureWidthIgnoreANSIBytesCustom (CHR '' '' # x) wfn
     = wfn 0x20 + MeasureWidthIgnoreANSIBytesCustom x wfn"
  using Measure_step [of "CHR '' ''" x "0x20" 1 wfn]
  by (simp add: DecodeRune_space RuneError_def)

lemma Measure_spaces_prepend:
  "MeasureWidthIgnoreANSIBytesCustom (replicate m CHR '' '' @ b) wfn
     = int m * wfn 0x20 + MeasureWidthIgnoreANSIBytesCustom b wfn"
  by (induction m) (simp_all add: Measure_space algebra_simps)

lemma Measure_spaces_append:
  "CHR 0x1B \<notin> set b \<Longrightarrow>
   MeasureWidthIgnoreANSIBytesCustom (b @ replicate m CHR '' '') wfn
     = MeasureWidthIgnoreANSIBytesCustom b wfn + int m * wfn 0x20"
proof (induction "length b" arbitrary: b rule: less_induct)
  case less
  show ?case
  proof (cases b)
    case Nil
    then show ?thesis
      using Measure_spaces_prepend [of m "[]" wfn] by (simp add: Measure_Nil)
  next
    case (Cons c cs)
    obtain r n where d: "DecodeRune (c # cs) = (r, n)" by (cases "DecodeRune (c # cs)")
    have ne: "c \<noteq> CHR 0x1B" using less.prems Cons by auto
    have n: "1 \<le> n" "n \<le> length (c # cs)" using DecodeRune_size [OF d] by auto
    have d': "DecodeRune (c # (cs @ replicate m CHR '' '')) = (r, n)"
      using DecodeRune_append_spaces [of c cs m] d by simp
    have dr: "drop n (c # (cs @ replicate m CHR '' '')) = drop n (c # cs) @ replicate m CHR '' ''"
      using n by (cases n) simp_all
    have "length (drop n (c # cs)) < length b" using n Cons by simp
    moreover have "CHR 0x1B \<notin> set (drop n (c # cs))"
      using less.prems Cons by (meson in_set_dropD)
    ultimately have ih: "MeasureWidthIgnoreANSIBytesCustom (drop n (c # cs) @ replicate m CHR '' '') wfn
        = MeasureWidthIgnoreANSIBytesCustom (drop n (c # cs)) wfn + int m * wfn 0x20"
      by (rule less.hyps)
    show ?thesis
      using Measure_step [OF ne d', of wfn] Measure_step [OF ne d, of wfn] ih
      by (simp add: Cons dr)
  qed
qed


section \<open>Truncation\<close>

text \<open>
  What the loop of \<open>TruncateToWidthBytes\<close> leaves behind: it has moved a prefix of the
  buffer to the result, the width it counted is the measured width of that prefix, and
  where it stopped early the next code point does not fit.
\<close>

lemma truncLoop_spec:
  "CHR 0x1B \<notin> set b \<Longrightarrow> truncLoop b m w res = (res', b', w') \<Longrightarrow>
   \<exists>k. res' = res @ take k b \<and> b' = drop k b
     \<and> w' = w + MeasureWidthIgnoreANSIBytesCustom (take k b) RuneWidth
     \<and> MeasureWidthIgnoreANSIBytesCustom b RuneWidth
         = MeasureWidthIgnoreANSIBytesCustom (take k b) RuneWidth
           + MeasureWidthIgnoreANSIBytesCustom b' RuneWidth
     \<and> (w \<le> m \<longrightarrow> w' \<le> m)
     \<and> (b' \<noteq> [] \<longrightarrow> m < w' + RuneWidth (fst (DecodeRune b')))"
proof (induction "length b" arbitrary: b w res rule: less_induct)
  case less
  show ?case
  proof (cases b)
    case Nil
    with less.prems(2) have "res' = res" "b' = []" "w' = w"
      by (simp_all add: truncLoop.simps)
    then show ?thesis using Nil by (simp add: Measure_Nil)
  next
    case (Cons c cs)
    obtain r n where d: "DecodeRune (c # cs) = (r, n)" by (cases "DecodeRune (c # cs)")
    have ne: "c \<noteq> CHR 0x1B" using less.prems(1) Cons by auto
    have n: "1 \<le> n" "n \<le> length (c # cs)" using DecodeRune_size [OF d] by auto
    show ?thesis
    proof (cases "w + RuneWidth r > m")
      case True
      with less.prems(2) d Cons have "res' = res" "b' = c # cs" "w' = w"
        by (simp_all add: truncLoop.simps Let_def)
      then have "res' = res @ take 0 b \<and> b' = drop 0 b
         \<and> w' = w + MeasureWidthIgnoreANSIBytesCustom (take 0 b) RuneWidth
         \<and> MeasureWidthIgnoreANSIBytesCustom b RuneWidth
             = MeasureWidthIgnoreANSIBytesCustom (take 0 b) RuneWidth
               + MeasureWidthIgnoreANSIBytesCustom b' RuneWidth
         \<and> (w \<le> m \<longrightarrow> w' \<le> m)
         \<and> (b' \<noteq> [] \<longrightarrow> m < w' + RuneWidth (fst (DecodeRune b')))"
        using True d Cons by (simp add: Measure_Nil)
      then show ?thesis by (rule exI)
    next
      case False
      let ?b1 = "drop n (c # cs)"
      from False less.prems(2) d Cons
      have rec: "truncLoop ?b1 m (w + RuneWidth r) (res @ take n (c # cs)) = (res', b', w')"
        by (simp add: truncLoop.simps Let_def)
      have len: "length ?b1 < length b" using n Cons by simp
      have noesc: "CHR 0x1B \<notin> set ?b1" using less.prems(1) Cons by (meson in_set_dropD)
      from less.hyps [OF len noesc rec]
      obtain k where k: "res' = (res @ take n (c # cs)) @ take k ?b1" "b' = drop k ?b1"
        "w' = (w + RuneWidth r) + MeasureWidthIgnoreANSIBytesCustom (take k ?b1) RuneWidth"
        "MeasureWidthIgnoreANSIBytesCustom ?b1 RuneWidth
           = MeasureWidthIgnoreANSIBytesCustom (take k ?b1) RuneWidth
             + MeasureWidthIgnoreANSIBytesCustom b' RuneWidth"
        "w + RuneWidth r \<le> m \<longrightarrow> w' \<le> m"
        "b' \<noteq> [] \<longrightarrow> m < w' + RuneWidth (fst (DecodeRune b'))"
        by blast
      let ?p = "take (n + k) (c # cs)"
      have p: "?p = take n (c # cs) @ take k ?b1" by (simp add: take_add)
      have pd: "DecodeRune ?p = (r, n)" using DecodeRune_take [OF d, of "n + k"] by simp
      obtain c' cs' where pc: "?p = c' # cs'" "c' = c"
        using n by (cases "n + k") auto
      have dp: "drop n ?p = take k ?b1" using n by (simp add: p)
      have mp: "MeasureWidthIgnoreANSIBytesCustom ?p RuneWidth
          = RuneWidth r + MeasureWidthIgnoreANSIBytesCustom (take k ?b1) RuneWidth"
        using Measure_step_RuneWidth [of c' cs' r n] pd ne dp unfolding pc [symmetric]
        by (simp add: pc)
      have mb: "MeasureWidthIgnoreANSIBytesCustom (c # cs) RuneWidth
          = RuneWidth r + MeasureWidthIgnoreANSIBytesCustom ?b1 RuneWidth"
        by (rule Measure_step_RuneWidth [OF ne d])
      have bd: "drop (n + k) (c # cs) = drop k ?b1" by (simp add: add.commute)
      have c1: "res' = res @ take (n + k) b" using k(1) by (simp add: Cons p)
      have c2: "b' = drop (n + k) b" using k(2) bd by (simp add: Cons)
      have c3: "w' = w + MeasureWidthIgnoreANSIBytesCustom (take (n + k) b) RuneWidth"
        using k(3) mp by (simp add: Cons)
      have c4: "MeasureWidthIgnoreANSIBytesCustom b RuneWidth
             = MeasureWidthIgnoreANSIBytesCustom (take (n + k) b) RuneWidth
               + MeasureWidthIgnoreANSIBytesCustom b' RuneWidth"
        using k(4) mp mb by (simp add: Cons)
      have c5: "w \<le> m \<longrightarrow> w' \<le> m" using k(5) False by simp
      have "res' = res @ take (n + k) b \<and> b' = drop (n + k) b
         \<and> w' = w + MeasureWidthIgnoreANSIBytesCustom (take (n + k) b) RuneWidth
         \<and> MeasureWidthIgnoreANSIBytesCustom b RuneWidth
             = MeasureWidthIgnoreANSIBytesCustom (take (n + k) b) RuneWidth
               + MeasureWidthIgnoreANSIBytesCustom b' RuneWidth
         \<and> (w \<le> m \<longrightarrow> w' \<le> m)
         \<and> (b' \<noteq> [] \<longrightarrow> m < w' + RuneWidth (fst (DecodeRune b')))"
        using c1 c2 c3 c4 c5 k(6) by (intro conjI)
      then show ?thesis by (rule exI)
    qed
  qed
qed


lemma Measure_RuneWidth_nonneg: "0 \<le> MeasureWidthIgnoreANSIBytesCustom b RuneWidth"
  by (simp add: Measure_nonneg RuneWidth_nonneg)

lemma Measure_ge_first:
  assumes "CHR 0x1B \<notin> set b" "b \<noteq> []"
  shows "RuneWidth (fst (DecodeRune b)) \<le> MeasureWidthIgnoreANSIBytesCustom b RuneWidth"
proof -
  obtain c cs where b: "b = c # cs" using assms(2) by (cases b) auto
  obtain r n where d: "DecodeRune (c # cs) = (r, n)" by (cases "DecodeRune (c # cs)")
  have "c \<noteq> CHR 0x1B" using assms(1) b by auto
  from Measure_step_RuneWidth [OF this d]
    Measure_RuneWidth_nonneg [of "drop n (c # cs)"]
  show ?thesis by (simp add: b d)
qed

text \<open>
  \<open>TruncateToWidthBytes\<close> returns the longest prefix, cut between code points, whose width
  is within the limit; the test for the ellipsis never succeeds, since the next code point
  is at most 2 wide.
\<close>


lemma TruncateToWidthBytes_spec:
  assumes "CHR 0x1B \<notin> set b" "0 < m"
  shows "\<exists>k. TruncateToWidthBytes b m = take k b
     \<and> MeasureWidthIgnoreANSIBytesCustom (take k b) RuneWidth \<le> m
     \<and> MeasureWidthIgnoreANSIBytesCustom b RuneWidth
         = MeasureWidthIgnoreANSIBytesCustom (take k b) RuneWidth
           + MeasureWidthIgnoreANSIBytesCustom (drop k b) RuneWidth
     \<and> (drop k b \<noteq> [] \<longrightarrow>
          m < MeasureWidthIgnoreANSIBytesCustom (take k b) RuneWidth
                + RuneWidth (fst (DecodeRune (drop k b))))"
proof -
  obtain res' b' w' where t: "truncLoop b m 0 [] = (res', b', w')"
    by (cases "truncLoop b m 0 []") auto
  from truncLoop_spec [OF assms(1) t]
  obtain k where K: "res' = [] @ take k b \<and> b' = drop k b
     \<and> w' = 0 + MeasureWidthIgnoreANSIBytesCustom (take k b) RuneWidth
     \<and> MeasureWidthIgnoreANSIBytesCustom b RuneWidth
         = MeasureWidthIgnoreANSIBytesCustom (take k b) RuneWidth
           + MeasureWidthIgnoreANSIBytesCustom b' RuneWidth
     \<and> (0 \<le> m \<longrightarrow> w' \<le> m)
     \<and> (b' \<noteq> [] \<longrightarrow> m < w' + RuneWidth (fst (DecodeRune b')))" ..
  have k1: "res' = take k b" using K [THEN conjunct1] by simp
  have k2: "b' = drop k b" using K [THEN conjunct2, THEN conjunct1] .
  have k3: "w' = MeasureWidthIgnoreANSIBytesCustom (take k b) RuneWidth"
    using K [THEN conjunct2, THEN conjunct2, THEN conjunct1] by simp
  have k4: "MeasureWidthIgnoreANSIBytesCustom b RuneWidth
         = MeasureWidthIgnoreANSIBytesCustom (take k b) RuneWidth
           + MeasureWidthIgnoreANSIBytesCustom b' RuneWidth"
    using K [THEN conjunct2, THEN conjunct2, THEN conjunct2, THEN conjunct1] .
  have k5: "w' \<le> m"
    using K [THEN conjunct2, THEN conjunct2, THEN conjunct2, THEN conjunct2, THEN conjunct1]
      assms(2) by simp
  have k6: "b' \<noteq> [] \<longrightarrow> m < w' + RuneWidth (fst (DecodeRune b'))"
    using K [THEN conjunct2, THEN conjunct2, THEN conjunct2, THEN conjunct2, THEN conjunct2] .
  have noell: "\<not> (length b' > 0 \<and> w' \<le> m - 3)"
  proof
    assume a: "length b' > 0 \<and> w' \<le> m - 3"
    then have "b' \<noteq> []" by simp
    with k6 have "m < w' + RuneWidth (fst (DecodeRune b'))" by (rule mp)
    with a RuneWidth_le2 [of "fst (DecodeRune b')"] show False by linarith
  qed
  have r: "TruncateToWidthBytes b m = take k b"
    using assms(2) t k1 noell by (simp add: TruncateToWidthBytes_def)
  show ?thesis
  proof (intro exI conjI)
    show "TruncateToWidthBytes b m = take k b" by (rule r)
    show "MeasureWidthIgnoreANSIBytesCustom (take k b) RuneWidth \<le> m"
      using k5 k3 by simp
    show "MeasureWidthIgnoreANSIBytesCustom b RuneWidth
         = MeasureWidthIgnoreANSIBytesCustom (take k b) RuneWidth
           + MeasureWidthIgnoreANSIBytesCustom (drop k b) RuneWidth"
      using k4 unfolding k2 .
    show "drop k b \<noteq> [] \<longrightarrow>
          m < MeasureWidthIgnoreANSIBytesCustom (take k b) RuneWidth
                + RuneWidth (fst (DecodeRune (drop k b)))"
      using k6 unfolding k2 k3 .
  qed
qed

lemma TruncateToWidthBytes_fits:
  assumes "CHR 0x1B \<notin> set b" "0 < m" "MeasureWidthIgnoreANSIBytesCustom b RuneWidth \<le> m"
  shows "TruncateToWidthBytes b m = b"
proof -
  from TruncateToWidthBytes_spec [OF assms(1,2)]
  obtain k where K: "TruncateToWidthBytes b m = take k b
     \<and> MeasureWidthIgnoreANSIBytesCustom (take k b) RuneWidth \<le> m
     \<and> MeasureWidthIgnoreANSIBytesCustom b RuneWidth
         = MeasureWidthIgnoreANSIBytesCustom (take k b) RuneWidth
           + MeasureWidthIgnoreANSIBytesCustom (drop k b) RuneWidth
     \<and> (drop k b \<noteq> [] \<longrightarrow>
          m < MeasureWidthIgnoreANSIBytesCustom (take k b) RuneWidth
                + RuneWidth (fst (DecodeRune (drop k b))))" ..
  note k1 = K [THEN conjunct1]
  note k3 = K [THEN conjunct2, THEN conjunct2, THEN conjunct1]
  note k4 = K [THEN conjunct2, THEN conjunct2, THEN conjunct2]
  have "drop k b = []"
  proof (rule ccontr)
    assume ne: "drop k b \<noteq> []"
    have "CHR 0x1B \<notin> set (drop k b)" using assms(1) by (meson in_set_dropD)
    from Measure_ge_first [OF this ne]
    have ge: "RuneWidth (fst (DecodeRune (drop k b)))
        \<le> MeasureWidthIgnoreANSIBytesCustom (drop k b) RuneWidth" .
    from k4 ne have lt: "m < MeasureWidthIgnoreANSIBytesCustom (take k b) RuneWidth
                + RuneWidth (fst (DecodeRune (drop k b)))" by (rule mp)
    from ge lt k3 assms(3) show False by linarith
  qed
  then show ?thesis using k1 by simp
qed


section \<open>Cells whose escape sequences are closed\<close>

declare closedEscapes.simps [simp del]

lemma csiBody_le: "csiBody rest = Some j \<Longrightarrow> j \<le> length rest"
  by (induction rest arbitrary: j) (auto split: if_splits)

lemma escapeLen_le: "escapeLen b \<le> length b"
proof (cases b)
  case Nil
  then show ?thesis by (simp add: escapeLen.simps)
next
  case (Cons e b1)
  show ?thesis
  proof (cases b1)
    case Nil
    with Cons show ?thesis by (simp add: escapeLen.simps)
  next
    case (Cons l rest)
    with \<open>b = e # b1\<close> show ?thesis
      using csiBody_le [of rest] by (auto simp: escapeLen.simps split: option.splits)
  qed
qed

lemma csiBody_closed_append: "csiClosed rest \<Longrightarrow> csiBody (rest @ y) = csiBody rest"
  by (induction rest) auto

lemma csiBody_None_append: "csiBody rest = None \<Longrightarrow> csiBody (rest @ y) = None"
  by (induction rest) (auto split: if_splits)

lemma escapeLen_closed_append:
  assumes "0 < escapeLen (c # cs)" and "csiClosed (drop 2 (c # cs))"
  shows "escapeLen ((c # cs) @ y) = escapeLen (c # cs)"
proof (cases cs)
  case Nil
  with assms(1) show ?thesis by (simp add: escapeLen.simps)
next
  case (Cons l rest)
  with assms show ?thesis
    by (auto simp: escapeLen.simps csiBody_closed_append split: if_splits)
qed

lemma escapeLen_zero_append_spaces:
  assumes "escapeLen (c # cs) = 0"
  shows "escapeLen ((c # cs) @ replicate m CHR '' '') = 0"
proof (cases cs)
  case Nil
  show ?thesis
  proof (cases m)
    case 0
    with Nil show ?thesis by (simp add: escapeLen.simps)
  next
    case (Suc m')
    with Nil show ?thesis by (simp add: escapeLen.simps bval_def)
  qed
next
  case (Cons l rest)
  with assms show ?thesis
    by (auto simp: escapeLen.simps csiBody_None_append split: if_splits option.splits)
qed

lemma Measure_step0:
  assumes "escapeLen (c # cs) = 0" and "DecodeRune (c # cs) = (r, n)"
  shows "MeasureWidthIgnoreANSIBytesCustom (c # cs) wfn =
    (if r = RuneError \<and> n = 1 then 1 else wfn r)
      + MeasureWidthIgnoreANSIBytesCustom (drop n (c # cs)) wfn"
  using assms by (auto simp: MeasureWidthIgnoreANSIBytesCustom.simps Let_def)

lemma Measure_skip:
  assumes "0 < escapeLen (c # cs)"
  shows "MeasureWidthIgnoreANSIBytesCustom (c # cs) wfn =
    MeasureWidthIgnoreANSIBytesCustom (drop (escapeLen (c # cs)) (c # cs)) wfn"
  using assms by (simp add: MeasureWidthIgnoreANSIBytesCustom.simps Let_def)

lemma Measure_closed_append_spaces:
  "closedEscapes b \<Longrightarrow>
   MeasureWidthIgnoreANSIBytesCustom (b @ replicate m CHR '' '') wfn
     = MeasureWidthIgnoreANSIBytesCustom b wfn + int m * wfn 0x20"
proof (induction "length b" arbitrary: b rule: less_induct)
  case less
  show ?case
  proof (cases b)
    case Nil
    then show ?thesis
      using Measure_spaces_prepend [of m "[]" wfn] by (simp add: Measure_Nil)
  next
    case (Cons c cs)
    let ?sp = "replicate m CHR '' ''"
    show ?thesis
    proof (cases "0 < escapeLen (c # cs)")
      case True
      let ?k = "escapeLen (c # cs)"
      from less.prems Cons True
      have cl: "csiClosed (drop 2 (c # cs))" and rest: "closedEscapes (drop ?k (c # cs))"
        by (simp_all add: closedEscapes.simps Let_def)
      have k': "escapeLen ((c # cs) @ ?sp) = ?k"
        by (rule escapeLen_closed_append [OF True cl])
      have kle: "?k \<le> length (c # cs)" by (rule escapeLen_le)
      have "?k - length (c # cs) = 0" using kle by simp
      then have dr: "drop ?k ((c # cs) @ ?sp) = drop ?k (c # cs) @ ?sp"
        by (simp only: drop_append drop_0)
      have "length (drop ?k (c # cs)) < length b" using True Cons by simp
      from less.hyps [OF this rest]
      have ih: "MeasureWidthIgnoreANSIBytesCustom (drop ?k (c # cs) @ ?sp) wfn
          = MeasureWidthIgnoreANSIBytesCustom (drop ?k (c # cs)) wfn + int m * wfn 0x20" .
      have "MeasureWidthIgnoreANSIBytesCustom ((c # cs) @ ?sp) wfn
          = MeasureWidthIgnoreANSIBytesCustom (drop ?k ((c # cs) @ ?sp)) wfn"
        using Measure_skip [of c "cs @ ?sp" wfn] True k' by simp
      also have "\<dots> = MeasureWidthIgnoreANSIBytesCustom (drop ?k (c # cs)) wfn + int m * wfn 0x20"
        using ih dr by simp
      also have "\<dots> = MeasureWidthIgnoreANSIBytesCustom (c # cs) wfn + int m * wfn 0x20"
        using Measure_skip [OF True, of wfn] by simp
      finally show ?thesis by (simp add: Cons)
    next
      case False
      then have z: "escapeLen (c # cs) = 0" by simp
      obtain r n where d: "DecodeRune (c # cs) = (r, n)" by (cases "DecodeRune (c # cs)")
      have n: "1 \<le> n" "n \<le> length (c # cs)" using DecodeRune_size [OF d] by auto
      have z': "escapeLen (c # (cs @ ?sp)) = 0"
        using escapeLen_zero_append_spaces [OF z, of m] by simp
      have d': "DecodeRune (c # (cs @ ?sp)) = (r, n)"
        using DecodeRune_append_spaces [of c cs m] d by simp
      have dr: "drop n (c # (cs @ ?sp)) = drop n (c # cs) @ ?sp"
        using n by (cases n) simp_all
      have len: "length (drop n (c # cs)) < length b" using n Cons by simp
      have rest: "closedEscapes (drop n (c # cs))"
        using less.prems Cons z d by (simp add: closedEscapes.simps Let_def)
      from less.hyps [OF len rest]
      have ih: "MeasureWidthIgnoreANSIBytesCustom (drop n (c # cs) @ ?sp) wfn
          = MeasureWidthIgnoreANSIBytesCustom (drop n (c # cs)) wfn + int m * wfn 0x20" .
      show ?thesis
        using Measure_step0 [OF z' d', of wfn] Measure_step0 [OF z d, of wfn] ih
        by (simp add: Cons dr)
    qed
  qed
qed

lemma closedEscapes_noESC: "CHR 0x1B \<notin> set b \<Longrightarrow> closedEscapes b"
proof (induction "length b" arbitrary: b rule: less_induct)
  case less
  show ?case
  proof (cases b)
    case Nil
    then show ?thesis by (simp add: closedEscapes.simps)
  next
    case (Cons c cs)
    have "hd (c # cs) \<noteq> CHR 0x1B" using less.prems Cons by auto
    then have z: "escapeLen (c # cs) = 0" by (rule escapeLen_noESC)
    obtain r n where d: "DecodeRune (c # cs) = (r, n)" by (cases "DecodeRune (c # cs)")
    have n: "1 \<le> n" using DecodeRune_size [OF d] by simp
    have "length (drop n (c # cs)) < length b" using n Cons by simp
    moreover have "CHR 0x1B \<notin> set (drop n (c # cs))"
      using less.prems Cons by (meson in_set_dropD)
    ultimately have "closedEscapes (drop n (c # cs))" by (rule less.hyps)
    then show ?thesis using z d Cons by (simp add: closedEscapes.simps Let_def)
  qed
qed

section \<open>Formatting a cell\<close>

lemma length_padWithANSI:
  "cw < w \<Longrightarrow> length (padWithANSI cell w cw a) = length cell + nat (w - cw)"
  by (auto simp: padWithANSI_def Let_def nat_add_distrib [symmetric] simp del: nat_add_distrib)

lemma set_padWithANSI: "set (padWithANSI cell w cw a) \<subseteq> insert (CHR '' '') (set cell)"
  by (auto simp: padWithANSI_def Let_def)

lemma Measure_padWithANSI:
  assumes "closedEscapes cell" and "wfn 0x20 = 1"
    and "cw = MeasureWidthIgnoreANSIBytesCustom cell wfn" and "cw < w"
  shows "MeasureWidthIgnoreANSIBytesCustom (padWithANSI cell w cw a) wfn = w"
proof -
  let ?p = "w - cw"
  have p: "0 < ?p" using assms(4) by simp
  have centre: "MeasureWidthIgnoreANSIBytesCustom
      (replicate (nat (?p div 2)) CHR '' '' @ cell @ replicate (nat (?p - ?p div 2)) CHR '' '') wfn
      = w"
  proof -
    have "MeasureWidthIgnoreANSIBytesCustom
      (replicate (nat (?p div 2)) CHR '' '' @ cell @ replicate (nat (?p - ?p div 2)) CHR '' '') wfn
      = int (nat (?p div 2)) + (cw + int (nat (?p - ?p div 2)))"
      using assms(1,2,3) by (simp add: Measure_spaces_prepend Measure_closed_append_spaces)
    also have "\<dots> = w" using p by simp
    finally show ?thesis .
  qed
  have right: "MeasureWidthIgnoreANSIBytesCustom (replicate (nat ?p) CHR '' '' @ cell) wfn = w"
    using assms(2,3) p by (simp add: Measure_spaces_prepend)
  have left: "MeasureWidthIgnoreANSIBytesCustom (cell @ replicate (nat ?p) CHR '' '') wfn = w"
    using assms(1,2,3) p by (simp add: Measure_closed_append_spaces)
  show ?thesis using p centre right left by (simp add: padWithANSI_def Let_def)
qed

lemma alignCell_pad:
  "MeasureWidthIgnoreANSIBytesCustom cell (widthFunc t) < w \<Longrightarrow>
   alignCell t cell w a
     = padWithANSI cell w (MeasureWidthIgnoreANSIBytesCustom cell (widthFunc t)) a"
  by (simp add: alignCell_def Let_def)

lemma alignCell_truncate:
  "CHR 0x1B \<notin> set cell \<Longrightarrow> w \<le> MeasureWidthIgnoreANSIBytesCustom cell (widthFunc t) \<Longrightarrow>
   alignCell t cell w a = TruncateToWidthBytes cell w"
  by (simp add: alignCell_def Let_def truncateWithANSI_def HasANSIBytes_noESC)

text \<open>Padding and truncation, separately.\<close>

lemma alignCell_padded_width:
  assumes "widthFunc t = RuneWidth" and "CHR 0x1B \<notin> set cell"
    and "MeasureWidthIgnoreANSIBytesCustom cell RuneWidth < w"
  shows "MeasureWidthIgnoreANSIBytesCustom (alignCell t cell w a) RuneWidth = w"
proof -
  have sp: "RuneWidth 0x20 = 1" by (simp add: RuneWidth_def)
  show ?thesis
    using alignCell_pad [of cell t w a] assms
      Measure_padWithANSI [OF closedEscapes_noESC [OF assms(2)] sp refl assms(3), of a]
    by simp
qed

lemma alignCell_truncated_width:
  assumes "widthFunc t = RuneWidth" and "CHR 0x1B \<notin> set cell"
    and "0 \<le> w" and "w \<le> MeasureWidthIgnoreANSIBytesCustom cell RuneWidth"
  shows "\<exists>k. alignCell t cell w a = take k cell
     \<and> (MeasureWidthIgnoreANSIBytesCustom (take k cell) RuneWidth = w
        \<or> (MeasureWidthIgnoreANSIBytesCustom (take k cell) RuneWidth = w - 1
           \<and> RuneWidth (fst (DecodeRune (drop k cell))) = 2))"
proof (cases "w = 0")
  case True
  have "alignCell t cell w a = TruncateToWidthBytes cell w"
    using alignCell_truncate [OF assms(2), of w t a] assms(1,4) by simp
  then have "alignCell t cell w a = take 0 cell"
    using True by (simp add: TruncateToWidthBytes_def)
  moreover have "MeasureWidthIgnoreANSIBytesCustom (take 0 cell) RuneWidth = w"
    using True by (simp add: Measure_Nil)
  ultimately show ?thesis by blast
next
  case False
  then have pos: "0 < w" using assms(3) by simp
  have tr: "alignCell t cell w a = TruncateToWidthBytes cell w"
    using alignCell_truncate [OF assms(2), of w t a] assms(1,4) by simp
  from TruncateToWidthBytes_spec [OF assms(2) pos]
  obtain k where K: "TruncateToWidthBytes cell w = take k cell
     \<and> MeasureWidthIgnoreANSIBytesCustom (take k cell) RuneWidth \<le> w
     \<and> MeasureWidthIgnoreANSIBytesCustom cell RuneWidth
         = MeasureWidthIgnoreANSIBytesCustom (take k cell) RuneWidth
           + MeasureWidthIgnoreANSIBytesCustom (drop k cell) RuneWidth
     \<and> (drop k cell \<noteq> [] \<longrightarrow>
          w < MeasureWidthIgnoreANSIBytesCustom (take k cell) RuneWidth
                + RuneWidth (fst (DecodeRune (drop k cell))))" ..
  note k1 = K [THEN conjunct1]
  note k2 = K [THEN conjunct2, THEN conjunct1]
  note k3 = K [THEN conjunct2, THEN conjunct2, THEN conjunct1]
  note k4 = K [THEN conjunct2, THEN conjunct2, THEN conjunct2]
  have "MeasureWidthIgnoreANSIBytesCustom (take k cell) RuneWidth = w
        \<or> (MeasureWidthIgnoreANSIBytesCustom (take k cell) RuneWidth = w - 1
           \<and> RuneWidth (fst (DecodeRune (drop k cell))) = 2)"
  proof (cases "drop k cell = []")
    case True
    then have "MeasureWidthIgnoreANSIBytesCustom (drop k cell) RuneWidth = 0"
      by (simp add: Measure_Nil)
    with k2 k3 assms(4) show ?thesis by linarith
  next
    case False
    with k4 have lt: "w < MeasureWidthIgnoreANSIBytesCustom (take k cell) RuneWidth
                + RuneWidth (fst (DecodeRune (drop k cell)))" by (rule mp)
    from RuneWidth_cases [of "fst (DecodeRune (drop k cell))"] lt k2
    show ?thesis by (elim disjE) (simp_all, linarith)
  qed
  with tr k1 show ?thesis by auto
qed

lemma alignCell_padded_closed:
  assumes "widthFunc t 0x20 = 1" and "closedEscapes cell"
    and "MeasureWidthIgnoreANSIBytesCustom cell (widthFunc t) < w"
  shows "MeasureWidthIgnoreANSIBytesCustom (alignCell t cell w a) (widthFunc t) = w"
  using alignCell_pad [OF assms(3), of a] Measure_padWithANSI [OF assms(2) assms(1) refl assms(3), of a]
  by simp

text \<open>
  C1.  What the code does with a cell of two code points of width 2 each (six bytes,
  measured width 4) in a column whose maximum width is 3: \<open>measureColumns\<close> gives the
  column the width 3, and \<open>alignCell\<close> takes its truncation branch and returns the first
  code point alone, of measured width 2 and not 3.  \<open>truncateWithANSI\<close> hands back
  what \<open>TruncateToWidthBytes\<close> has cut and does not fill it up to \<open>width\<close>, whereas the
  other branch of \<open>alignCell\<close>, \<open>padWithANSI\<close>, reaches \<open>width\<close> exactly (lemma
  \<open>alignCell_padded_closed\<close>) and \<open>renderBorderLine\<close> draws \<open>width + 2\<close> fill characters
  for the column.  The line of the row is therefore 6 wide between border lines 7 wide.
\<close>

theorem alignCell_truncation_short:
  "measureColumns (SetStyle (SetMaxWidth (AddRowBytes (NewFromStrings [''h''])
       [[CHR 0xE6, CHR 0x97, CHR 0xA5, CHR 0xE6, CHR 0x9C, CHR 0xAC]]) 0 3) StyleASCII) = Some [3]
   \<and> MeasureWidthIgnoreANSIBytesCustom [CHR 0xE6, CHR 0x97, CHR 0xA5, CHR 0xE6, CHR 0x9C, CHR 0xAC]
       (widthFunc (SetStyle (SetMaxWidth (AddRowBytes (NewFromStrings [''h''])
          [[CHR 0xE6, CHR 0x97, CHR 0xA5, CHR 0xE6, CHR 0x9C, CHR 0xAC]]) 0 3) StyleASCII)) = 4
   \<and> RuneWidth (fst (DecodeRune [CHR 0xE6, CHR 0x97, CHR 0xA5, CHR 0xE6, CHR 0x9C, CHR 0xAC])) = 2
   \<and> alignCell (SetStyle (SetMaxWidth (AddRowBytes (NewFromStrings [''h''])
          [[CHR 0xE6, CHR 0x97, CHR 0xA5, CHR 0xE6, CHR 0x9C, CHR 0xAC]]) 0 3) StyleASCII)
        [CHR 0xE6, CHR 0x97, CHR 0xA5, CHR 0xE6, CHR 0x9C, CHR 0xAC] 3 AlignLeft
       = [CHR 0xE6, CHR 0x97, CHR 0xA5]
   \<and> MeasureWidthIgnoreANSIBytesCustom
       (alignCell (SetStyle (SetMaxWidth (AddRowBytes (NewFromStrings [''h''])
          [[CHR 0xE6, CHR 0x97, CHR 0xA5, CHR 0xE6, CHR 0x9C, CHR 0xAC]]) 0 3) StyleASCII)
        [CHR 0xE6, CHR 0x97, CHR 0xA5, CHR 0xE6, CHR 0x9C, CHR 0xAC] 3 AlignLeft)
       (widthFunc (SetStyle (SetMaxWidth (AddRowBytes (NewFromStrings [''h''])
          [[CHR 0xE6, CHR 0x97, CHR 0xA5, CHR 0xE6, CHR 0x9C, CHR 0xAC]]) 0 3) StyleASCII)) = 2
   \<and> MeasureWidthIgnoreANSIBytesCustom
       (alignCell (SetStyle (SetMaxWidth (AddRowBytes (NewFromStrings [''h''])
          [[CHR 0xE6, CHR 0x97, CHR 0xA5, CHR 0xE6, CHR 0x9C, CHR 0xAC]]) 0 3) StyleASCII)
        [CHR 0xE6, CHR 0x97, CHR 0xA5, CHR 0xE6, CHR 0x9C, CHR 0xAC] 3 AlignLeft)
       (widthFunc (SetStyle (SetMaxWidth (AddRowBytes (NewFromStrings [''h''])
          [[CHR 0xE6, CHR 0x97, CHR 0xA5, CHR 0xE6, CHR 0x9C, CHR 0xAC]]) 0 3) StyleASCII)) \<noteq> 3
   \<and> String (SetStyle (SetMaxWidth (AddRowBytes (NewFromStrings [''h''])
          [[CHR 0xE6, CHR 0x97, CHR 0xA5, CHR 0xE6, CHR 0x9C, CHR 0xAC]]) 0 3) StyleASCII)
       = Some (''+-----+'' @ [CHR 0x0A] @ ''| h   |'' @ [CHR 0x0A] @ ''+-----+'' @ [CHR 0x0A]
               @ ''| '' @ [CHR 0xE6, CHR 0x97, CHR 0xA5] @ '' |'' @ [CHR 0x0A]
               @ ''+-----+'' @ [CHR 0x0A])
   \<and> MeasureWidthIgnoreANSIBytesCustom ''+-----+'' RuneWidth = 7
   \<and> MeasureWidthIgnoreANSIBytesCustom (''| '' @ [CHR 0xE6, CHR 0x97, CHR 0xA5] @ '' |'') RuneWidth = 6"
  by (simp add: table_eval DecodeRune.simps escapeLen.simps
      MeasureWidthIgnoreANSIBytesCustom.simps truncLoop.simps)

section \<open>Formatting twice\<close>

lemma noESC_alignCell:
  assumes "CHR 0x1B \<notin> set cell"
  shows "CHR 0x1B \<notin> set (alignCell t cell w a)"
proof (cases "w \<le> MeasureWidthIgnoreANSIBytesCustom cell (widthFunc t)")
  case True
  have "alignCell t cell w a = TruncateToWidthBytes cell w"
    by (rule alignCell_truncate [OF assms True])
  moreover have "CHR 0x1B \<notin> set (TruncateToWidthBytes cell w)"
  proof (cases "0 < w")
    case True
    from TruncateToWidthBytes_spec [OF assms True]
    obtain k where "TruncateToWidthBytes cell w = take k cell" by blast
    then show ?thesis using assms by (metis in_set_takeD)
  next
    case False
    then show ?thesis by (simp add: TruncateToWidthBytes_def)
  qed
  ultimately show ?thesis by simp
next
  case False
  then have "alignCell t cell w a
     = padWithANSI cell w (MeasureWidthIgnoreANSIBytesCustom cell (widthFunc t)) a"
    by (simp add: alignCell_pad)
  then show ?thesis
    using set_padWithANSI [of cell w "MeasureWidthIgnoreANSIBytesCustom cell (widthFunc t)" a] assms
    by auto
qed

lemma alignCell_le_width:
  assumes "widthFunc t = RuneWidth" and "CHR 0x1B \<notin> set cell" and "0 \<le> w"
  shows "MeasureWidthIgnoreANSIBytesCustom (alignCell t cell w a) RuneWidth \<le> w"
proof (cases "MeasureWidthIgnoreANSIBytesCustom cell RuneWidth < w")
  case True
  then show ?thesis using alignCell_padded_width [OF assms(1,2) True, of a] by simp
next
  case False
  then have "w \<le> MeasureWidthIgnoreANSIBytesCustom cell RuneWidth" by simp
  from alignCell_truncated_width [OF assms(1,2,3) this, of a]
  show ?thesis by auto
qed

lemma alignCell_nonpos:
  assumes "widthFunc t = RuneWidth" and "CHR 0x1B \<notin> set cell" and "w \<le> 0"
  shows "alignCell t cell w a = []"
proof -
  have "w \<le> MeasureWidthIgnoreANSIBytesCustom cell (widthFunc t)"
    using assms(1,3) Measure_RuneWidth_nonneg [of cell] by simp
  then have "alignCell t cell w a = TruncateToWidthBytes cell w"
    by (rule alignCell_truncate [OF assms(2)])
  then show ?thesis using assms(3) by (simp add: TruncateToWidthBytes_def)
qed

text \<open>
  C6.  What the code does when its own output is formatted again: the cell of two code
  points of width 2 each, formatted to the width 3, comes back from the truncation branch
  of \<open>alignCell\<close> as its first code point, of measured width 2, because that branch does
  not fill the cut cell up to \<open>width\<close>.  Formatted again with the same width and
  alignment, this output is narrower than 3, so \<open>alignCell\<close> takes the padding branch and
  appends a space: the second result differs from the first.
\<close>

theorem alignCell_not_idempotent:
  "alignCell (New [''h'']) [CHR 0xE6, CHR 0x97, CHR 0xA5, CHR 0xE6, CHR 0x9C, CHR 0xAC] 3 AlignLeft
       = [CHR 0xE6, CHR 0x97, CHR 0xA5]
   \<and> MeasureWidthIgnoreANSIBytesCustom [CHR 0xE6, CHR 0x97, CHR 0xA5] (widthFunc (New [''h''])) = 2
   \<and> alignCell (New [''h''])
        (alignCell (New [''h'']) [CHR 0xE6, CHR 0x97, CHR 0xA5, CHR 0xE6, CHR 0x9C, CHR 0xAC] 3 AlignLeft)
        3 AlignLeft
       = [CHR 0xE6, CHR 0x97, CHR 0xA5, CHR '' '']
   \<and> alignCell (New [''h''])
        (alignCell (New [''h'']) [CHR 0xE6, CHR 0x97, CHR 0xA5, CHR 0xE6, CHR 0x9C, CHR 0xAC] 3 AlignLeft)
        3 AlignLeft
       \<noteq> alignCell (New [''h'']) [CHR 0xE6, CHR 0x97, CHR 0xA5, CHR 0xE6, CHR 0x9C, CHR 0xAC] 3 AlignLeft"
  by (simp add: table_eval DecodeRune.simps escapeLen.simps
      MeasureWidthIgnoreANSIBytesCustom.simps truncLoop.simps)

text \<open>
  When the second formatting leaves the formatted cell as it is, for the default width
  function and cells without the escape byte: exactly when the formatted cell measures at
  least \<open>w\<close>, which holds after padding and for \<open>w \<le> 0\<close>.
\<close>

lemma alignCell_twice:

  assumes "widthFunc t = RuneWidth" and "CHR 0x1B \<notin> set cell"
  shows "(alignCell t (alignCell t cell w a) w a = alignCell t cell w a
          \<longleftrightarrow> w \<le> MeasureWidthIgnoreANSIBytesCustom (alignCell t cell w a) (widthFunc t))
     \<and> (MeasureWidthIgnoreANSIBytesCustom cell (widthFunc t) < w \<longrightarrow>
          alignCell t (alignCell t cell w a) w a = alignCell t cell w a)
     \<and> (w \<le> 0 \<longrightarrow> alignCell t (alignCell t cell w a) w a = alignCell t cell w a)"
proof -
  let ?out = "alignCell t cell w a"
  let ?M = "\<lambda>x. MeasureWidthIgnoreANSIBytesCustom x (widthFunc t)"
  have ne: "CHR 0x1B \<notin> set ?out" by (rule noESC_alignCell [OF assms(2)])
  have same: "alignCell t ?out w a = ?out" if ge: "w \<le> ?M ?out"
  proof (cases "0 < w")
    case True
    have le: "MeasureWidthIgnoreANSIBytesCustom ?out RuneWidth \<le> w"
      using alignCell_le_width [OF assms, of w a] True by simp
    have "alignCell t ?out w a = TruncateToWidthBytes ?out w"
      by (rule alignCell_truncate [OF ne ge])
    also have "\<dots> = ?out" by (rule TruncateToWidthBytes_fits [OF ne True le])
    finally show ?thesis .
  next
    case False
    then have "w \<le> 0" by simp
    then show ?thesis
      using alignCell_nonpos [OF assms, of w a] alignCell_nonpos [OF assms(1), of "[]" w a]
      by simp
  qed
  have differ: "alignCell t ?out w a \<noteq> ?out" if lt: "?M ?out < w"
  proof -
    have "alignCell t ?out w a = padWithANSI ?out w (?M ?out) a"
      using lt by (rule alignCell_pad)
    then have "length (alignCell t ?out w a) = length ?out + nat (w - ?M ?out)"
      using length_padWithANSI [OF lt, of ?out a] by simp
    then have "length (alignCell t ?out w a) \<noteq> length ?out" using lt by simp
    then show ?thesis by auto
  qed
  have iff: "alignCell t ?out w a = ?out \<longleftrightarrow> w \<le> ?M ?out"
    using same differ by (cases "w \<le> ?M ?out") auto
  have padded: "alignCell t ?out w a = ?out" if "?M cell < w"
  proof -
    have "?M ?out = w"
      using alignCell_padded_width [OF assms, of w a] that assms(1) by simp
    then show ?thesis using same by simp
  qed
  have nonpos: "alignCell t ?out w a = ?out" if "w \<le> 0"
    using alignCell_nonpos [OF assms that, of a] alignCell_nonpos [OF assms(1) _ that, of "[]" a]
    by simp
  from iff padded nonpos show ?thesis by blast
qed

section \<open>The ellipsis\<close>

lemma truncLoop_prefix:
  "truncLoop b m w res = (res', b', w') \<Longrightarrow>
   \<exists>k. res' = res @ take k b \<and> b' = drop k b
     \<and> (b' \<noteq> [] \<longrightarrow> m < w' + RuneWidth (fst (DecodeRune b')))"
proof (induction "length b" arbitrary: b w res rule: less_induct)
  case less
  show ?case
  proof (cases b)
    case Nil
    with less.prems have "res' = res @ take 0 b \<and> b' = drop 0 b
        \<and> (b' \<noteq> [] \<longrightarrow> m < w' + RuneWidth (fst (DecodeRune b')))"
      by (simp add: truncLoop.simps)
    then show ?thesis by (rule exI)
  next
    case (Cons c cs)
    obtain r n where d: "DecodeRune (c # cs) = (r, n)" by (cases "DecodeRune (c # cs)")
    have n: "1 \<le> n" "n \<le> length (c # cs)" using DecodeRune_size [OF d] by auto
    show ?thesis
    proof (cases "w + RuneWidth r > m")
      case True
      with less.prems d Cons have "res' = res @ take 0 b \<and> b' = drop 0 b
        \<and> (b' \<noteq> [] \<longrightarrow> m < w' + RuneWidth (fst (DecodeRune b')))"
        by (simp add: truncLoop.simps Let_def)
      then show ?thesis by (rule exI)
    next
      case False
      let ?b1 = "drop n (c # cs)"
      from False less.prems d Cons
      have rec: "truncLoop ?b1 m (w + RuneWidth r) (res @ take n (c # cs)) = (res', b', w')"
        by (simp add: truncLoop.simps Let_def)
      have len: "length ?b1 < length b" using n Cons by simp
      from less.hyps [OF len rec]
      obtain k where K: "res' = (res @ take n (c # cs)) @ take k ?b1 \<and> b' = drop k ?b1
        \<and> (b' \<noteq> [] \<longrightarrow> m < w' + RuneWidth (fst (DecodeRune b')))" ..
      have c1: "res' = res @ take (n + k) b"
        using K [THEN conjunct1] by (simp add: Cons take_add)
      have c2: "b' = drop (n + k) b"
        using K [THEN conjunct2, THEN conjunct1] by (simp add: Cons add.commute)
      have "res' = res @ take (n + k) b \<and> b' = drop (n + k) b
        \<and> (b' \<noteq> [] \<longrightarrow> m < w' + RuneWidth (fst (DecodeRune b')))"
        using c1 c2 K [THEN conjunct2, THEN conjunct2] by (intro conjI)
      then show ?thesis by (rule exI)
    qed
  qed
qed

text \<open>
  Whatever the buffer and the limit, \<open>TruncateToWidthBytes\<close> returns a prefix of the
  buffer: the branch that appends the ellipsis is never taken.
\<close>

lemma TruncateToWidthBytes_prefix: "\<exists>k. TruncateToWidthBytes b m = take k b"
proof (cases "m \<le> 0")
  case True
  then have "TruncateToWidthBytes b m = take 0 b" by (simp add: TruncateToWidthBytes_def)
  then show ?thesis by (rule exI)
next
  case False
  obtain res' b' w' where t: "truncLoop b m 0 [] = (res', b', w')"
    by (cases "truncLoop b m 0 []") auto
  from truncLoop_prefix [OF t]
  obtain k where K: "res' = [] @ take k b \<and> b' = drop k b
     \<and> (b' \<noteq> [] \<longrightarrow> m < w' + RuneWidth (fst (DecodeRune b')))" ..
  have noell: "\<not> (length b' > 0 \<and> w' \<le> m - 3)"
  proof
    assume a: "length b' > 0 \<and> w' \<le> m - 3"
    then have "b' \<noteq> []" by simp
    with K [THEN conjunct2, THEN conjunct2]
    have "m < w' + RuneWidth (fst (DecodeRune b'))" by (rule mp)
    with a RuneWidth_le2 [of "fst (DecodeRune b')"] show False by linarith
  qed
  have "TruncateToWidthBytes b m = take k b"
    using False t K [THEN conjunct1] noell by (simp add: TruncateToWidthBytes_def)
  then show ?thesis by (rule exI)
qed

end
